theory Spec2Isabelle
  imports Main
begin

section \<open>The task hierarchy of the to-do application\<close>

text \<open>
  A shallow embedding of \<^verbatim>\<open>backend/models.py\<close> (the \<^verbatim>\<open>Task\<close> model and its
  hierarchy methods) and of the task and list routes of \<^verbatim>\<open>backend/api.py\<close>.

  The two SQL tables are modelled as a store: the primary keys of a table in table order,
  and a function giving the columns of the row stored under a key. A \<^verbatim>\<open>Task\<close> object of
  the session is identified with its primary key, so that a change made through one
  reference (\<^verbatim>\<open>self.parent\<close>, \<^verbatim>\<open>child\<close>) is seen through every other one. The row
  function is meaningful at the keys of the table only.

  Timestamps are natural numbers. Every handler takes the reading \<open>now\<close> of
  \<^verbatim>\<open>datetime.utcnow()\<close> as an argument; all marks made by one request carry that reading.
  A commit of the session is assumed to succeed, and a route is modelled up to its commit:
  the JSON answer built from the committed rows is not part of the model. Python's
  recursion is taken as unbounded: a walk that never ends has no result (\<open>None\<close>).
\<close>

subsection \<open>Tables\<close>

record task =
  title :: string
  description :: string
  completed :: bool
  urgency :: string
  created_at :: nat
  completed_at :: "nat option"
  user_id :: nat
  list_id :: nat
  parent_id :: "nat option"

record todo_list =
  list_name :: string
  list_description :: string
  list_user_id :: nat
  list_created_at :: nat

record db =
  task_ids :: "nat list"
  task_row :: "nat \<Rightarrow> task"
  list_ids :: "nat list"
  list_row :: "nat \<Rightarrow> todo_list"

text \<open>\<^verbatim>\<open>Task.query.filter_by(id=i, user_id=u).first()\<close> and the same query on lists.\<close>

definition query_task :: "db \<Rightarrow> nat \<Rightarrow> nat \<Rightarrow> nat option" where
  "query_task s i u =
     (if i \<in> set (task_ids s) \<and> user_id (task_row s i) = u then Some i else None)"

definition query_list :: "db \<Rightarrow> nat \<Rightarrow> nat \<Rightarrow> nat option" where
  "query_list s l u =
     (if l \<in> set (list_ids s) \<and> list_user_id (list_row s l) = u then Some l else None)"

text \<open>
  The relationships of \<^verbatim>\<open>Task\<close>: \<^verbatim>\<open>parent\<close> is the task whose key is \<^verbatim>\<open>parent_id\<close>
  (none when the column is null or names no row), \<^verbatim>\<open>children\<close> are the rows whose
  \<^verbatim>\<open>parent_id\<close> is this key.
\<close>

definition parent :: "db \<Rightarrow> nat \<Rightarrow> nat option" where
  "parent s i =
     (case parent_id (task_row s i) of
        None \<Rightarrow> None
      | Some p \<Rightarrow> if p \<in> set (task_ids s) then Some p else None)"

definition children :: "db \<Rightarrow> nat \<Rightarrow> nat list" where
  "children s i = filter (\<lambda>c. parent_id (task_row s c) = Some i) (task_ids s)"

definition update_row :: "db \<Rightarrow> nat \<Rightarrow> (task \<Rightarrow> task) \<Rightarrow> db" where
  "update_row s i f = s\<lparr>task_row := (task_row s)(i := f (task_row s i))\<rparr>"

text \<open>The key given to a new row is larger than every key of the table.\<close>

definition next_id :: "db \<Rightarrow> nat" where
  "next_id s = Suc (fold max (task_ids s) 0)"

definition insert_row :: "db \<Rightarrow> nat \<Rightarrow> task \<Rightarrow> db" where
  "insert_row s n t = s\<lparr>task_ids := task_ids s @ [n], task_row := (task_row s)(n := t)\<rparr>"

definition add_task :: "db \<Rightarrow> task \<Rightarrow> nat \<times> db" where
  "add_task s t = (let n = next_id s in (n, insert_row s n t))"

subsection \<open>The methods of \<^verbatim>\<open>Task\<close>\<close>

text \<open>
  \<^verbatim>\<open>get_depth\<close>: 0 without a parent, else the parent's depth plus one. On a cyclic
  parent chain the recursion does not end.
\<close>

partial_function (option) get_depth :: "db \<Rightarrow> nat \<Rightarrow> nat option" where
  "get_depth s i =
     (case parent s i of
        None \<Rightarrow> Some 0
      | Some p \<Rightarrow> Option.bind (get_depth s p) (\<lambda>d. Some (d + 1)))"

definition set_completed :: "db \<Rightarrow> nat \<Rightarrow> nat \<Rightarrow> db" where
  "set_completed s now i =
     update_row s i (\<lambda>t. t\<lparr>completed := True, completed_at := Some now\<rparr>)"

definition set_incomplete :: "db \<Rightarrow> nat \<Rightarrow> db" where
  "set_incomplete s i = update_row s i (\<lambda>t. t\<lparr>completed := False, completed_at := None\<rparr>)"

text \<open>
  \<^verbatim>\<open>mark_completed\<close>: the task is marked, then the loop over its children calls
  \<^verbatim>\<open>mark_completed(cascade=True)\<close> on each child that is not completed when the loop
  reaches it. \<open>mark_children\<close> is that loop.
\<close>

function (sequential) mark_completed :: "db \<Rightarrow> nat \<Rightarrow> nat \<Rightarrow> bool \<Rightarrow> db"
  and mark_children :: "db \<Rightarrow> nat \<Rightarrow> nat list \<Rightarrow> db" where
  "mark_completed s now i cascade =
     (let s1 = set_completed s now i
      in if cascade then mark_children s1 now (children s1 i) else s1)"
| "mark_children s now [] = s"
| "mark_children s now (c # cs) =
     (if \<not> completed (task_row s c)
      then mark_children (mark_completed s now c True) now cs
      else mark_children s now cs)"
  by pat_completeness auto

text \<open>
  The recursion ends on every store, cyclic ones included: each nested call marks a task
  that was not completed, and nothing is ever unmarked.
\<close>

lemma mark_dom_mono:
  shows "mark_completed_mark_children_dom (Inl (s, now, i, cascade)) \<Longrightarrow>
          task_ids (mark_completed s now i cascade) = task_ids s \<and>
          (\<forall>x. completed (task_row s x) \<longrightarrow>
               completed (task_row (mark_completed s now i cascade) x))"
    and "mark_completed_mark_children_dom (Inr (s, now, cs)) \<Longrightarrow>
          task_ids (mark_children s now cs) = task_ids s \<and>
          (\<forall>x. completed (task_row s x) \<longrightarrow>
               completed (task_row (mark_children s now cs) x))"
proof (induction s now i cascade and s now cs rule: mark_completed_mark_children.pinduct)
  case (1 s now i cascade)
  then show ?case
    by (simp add: mark_completed.psimps Let_def set_completed_def update_row_def)
next
  case (2 s now)
  then show ?case by (simp add: mark_children.psimps)
next
  case (3 s now c cs)
  then show ?case by (simp add: mark_children.psimps)
qed

definition open_in :: "db \<Rightarrow> nat set \<Rightarrow> nat set" where
  "open_in s X = {x \<in> X. \<not> completed (task_row s x)}"

definition mark_measure ::
  "(db \<times> nat \<times> nat \<times> bool) + (db \<times> nat \<times> nat list) \<Rightarrow> nat \<times> nat \<times> nat" where
  "mark_measure a =
     (case a of
        Inl (s, now, i, cascade) \<Rightarrow> (card (open_in s (set (task_ids s) - {i})), 1, 0)
      | Inr (s, now, cs) \<Rightarrow> (card (open_in s (set (task_ids s) \<union> set cs)), 0, length cs))"

lemma finite_open_in: "finite X \<Longrightarrow> finite (open_in s X)"
  by (simp add: open_in_def)

termination mark_completed
proof (relation "inv_image (less_than <*lex*> less_than <*lex*> less_than) mark_measure")
  show "wf (inv_image (less_than <*lex*> less_than <*lex*> less_than) mark_measure)"
    by (intro wf_inv_image wf_lex_prod wf_less_than)
next
  fix s :: db and now i :: nat and cascade :: bool and x :: db
  assume x: "x = set_completed s now i" and cascade
  have "open_in x (set (task_ids x) \<union> set (children x i)) = open_in s (set (task_ids s) - {i})"
    unfolding x by (auto simp: open_in_def set_completed_def update_row_def children_def)
  then show "(Inr (x, now, children x i), Inl (s, now, i, cascade))
       \<in> inv_image (less_than <*lex*> less_than <*lex*> less_than) mark_measure"
    by (simp add: mark_measure_def)
next
  fix s :: db and now c :: nat and cs :: "nat list"
  assume c: "\<not> completed (task_row s c)"
  have "open_in s (set (task_ids s) - {c}) \<subset> open_in s (set (task_ids s) \<union> set (c # cs))"
    using c by (auto simp: open_in_def)
  then have "card (open_in s (set (task_ids s) - {c}))
      < card (open_in s (set (task_ids s) \<union> set (c # cs)))"
    by (intro psubset_card_mono finite_open_in) auto
  then show "(Inl (s, now, c, True), Inr (s, now, c # cs))
       \<in> inv_image (less_than <*lex*> less_than <*lex*> less_than) mark_measure"
    by (simp add: mark_measure_def)
next
  fix s :: db and now c :: nat and cs :: "nat list"
  assume c: "\<not> completed (task_row s c)"
    and dom: "mark_completed_mark_children_dom (Inl (s, now, c, True))"
  let ?s' = "mark_completed s now c True"
  from mark_dom_mono(1)[OF dom]
  have ids: "task_ids ?s' = task_ids s"
    and mono: "\<And>x. completed (task_row s x) \<Longrightarrow> completed (task_row ?s' x)"
    by auto
  have "open_in ?s' (set (task_ids ?s') \<union> set cs)
      \<subseteq> open_in s (set (task_ids s) \<union> set (c # cs))"
    using ids mono by (auto simp: open_in_def)
  then have "card (open_in ?s' (set (task_ids ?s') \<union> set cs))
      \<le> card (open_in s (set (task_ids s) \<union> set (c # cs)))"
    by (intro card_mono finite_open_in) auto
  then show "(Inr (?s', now, cs), Inr (s, now, c # cs))
       \<in> inv_image (less_than <*lex*> less_than <*lex*> less_than) mark_measure"
    by (auto simp: mark_measure_def)
next
  fix s :: db and now c :: nat and cs :: "nat list"
  assume c: "\<not> \<not> completed (task_row s c)"
  have "open_in s (set (task_ids s) \<union> set cs) = open_in s (set (task_ids s) \<union> set (c # cs))"
    using c by (auto simp: open_in_def)
  then show "(Inr (s, now, cs), Inr (s, now, c # cs))
       \<in> inv_image (less_than <*lex*> less_than <*lex*> less_than) mark_measure"
    by (simp add: mark_measure_def)
qed

text \<open>
  \<^verbatim>\<open>mark_incomplete\<close>: the task is unmarked; with \<^verbatim>\<open>cascade\<close>, a parent that is
  completed is unmarked by \<^verbatim>\<open>self.parent.mark_incomplete(cascade=False)\<close>.
\<close>

function mark_incomplete :: "db \<Rightarrow> nat \<Rightarrow> bool \<Rightarrow> db" where
  "mark_incomplete s i cascade =
     (let s1 = set_incomplete s i
      in case parent s1 i of
           None \<Rightarrow> s1
         | Some p \<Rightarrow>
             if cascade \<and> completed (task_row s1 p) then mark_incomplete s1 p False else s1)"
  by pat_completeness auto
termination
  by (relation "measure (\<lambda>(s, i, cascade). if cascade then 1 else 0)") auto

text \<open>
  \<^verbatim>\<open>is_ancestor_of\<close>: the \<^verbatim>\<open>while\<close> loop starts at the other task's parent and follows
  the parent references; \<open>ancestor_walk\<close> is the loop, with \<open>current\<close> as its argument.
\<close>

partial_function (option) ancestor_walk :: "db \<Rightarrow> nat \<Rightarrow> nat option \<Rightarrow> bool option" where
  "ancestor_walk s self current =
     (case current of
        None \<Rightarrow> Some False
      | Some c \<Rightarrow> if c = self then Some True else ancestor_walk s self (parent s c))"

definition is_ancestor_of :: "db \<Rightarrow> nat \<Rightarrow> nat \<Rightarrow> bool option" where
  "is_ancestor_of s self other_task = ancestor_walk s self (parent s other_task)"

subsection \<open>Requests and responses of the routes\<close>

text \<open>
  An error response is named after its message; \<open>http_status\<close> is the status code sent
  with it. \<open>NoResponse\<close> stands for a handler that does not return because a walk over
  the parent references does not end; it has no status code. An error response carries no
  store: the session is left as it was.
\<close>

datatype error =
    TitleAndListRequired
  | TaskTitleEmpty
  | ListNotFound
  | TaskNotFound
  | NoDataProvided
  | ParentTaskNotFound
  | TitleRequired
  | MaxDepthReached
  | NewParentNotFound
  | CannotMoveToDescendant
  | CannotMoveToDifferentList
  | NewListIdRequired
  | OnlyTopLevelCanMove
  | DestinationListNotFound
  | FailedToMoveTask
  | NoResponse

fun http_status :: "error \<Rightarrow> nat option" where
  "http_status ListNotFound = Some 404"
| "http_status TaskNotFound = Some 404"
| "http_status ParentTaskNotFound = Some 404"
| "http_status NewParentNotFound = Some 404"
| "http_status DestinationListNotFound = Some 404"
| "http_status FailedToMoveTask = Some 500"
| "http_status NoResponse = None"
| "http_status e = Some 400"

text \<open>
  The JSON bodies. A field that is absent from the body is \<open>None\<close>; a body that is
  missing or empty (\<^verbatim>\<open>not data\<close>) is \<open>None\<close> as a whole.
\<close>

record task_body =
  body_title :: "string option"
  body_list_id :: "nat option"
  body_description :: "string option"
  body_urgency :: "string option"
  body_parent_id :: "nat option"
  body_completed :: "bool option"

record move_body =
  move_parent_id :: "nat option"

record move_to_list_body =
  new_list_id :: "nat option"

text \<open>\<^verbatim>\<open>str.strip()\<close>, on the white space of the ASCII range.\<close>

definition is_space :: "char \<Rightarrow> bool" where
  "is_space c = (of_char c \<in> {9, 10, 11, 12, 13, 28, 29, 30, 31, 32 :: nat})"

definition strip :: "string \<Rightarrow> string" where
  "strip x = rev (dropWhile is_space (rev (dropWhile is_space x)))"

text \<open>The literal 5 of the two depth checks.\<close>

definition max_depth :: nat where
  "max_depth = 5"

definition valid_urgencies :: "string list" where
  "valid_urgencies = [''low'', ''medium'', ''high'', ''urgent'']"

definition new_task :: "string \<Rightarrow> task_body \<Rightarrow> nat \<Rightarrow> nat \<Rightarrow> nat option \<Rightarrow> nat \<Rightarrow> task" where
  "new_task ttl data l u p now =
     \<lparr>title = ttl,
      description = (case body_description data of None \<Rightarrow> [] | Some d \<Rightarrow> d),
      completed = False,
      urgency = (case body_urgency data of None \<Rightarrow> ''medium'' | Some g \<Rightarrow> g),
      created_at = now,
      completed_at = None,
      user_id = u,
      list_id = l,
      parent_id = p\<rparr>"

subsection \<open>The task routes\<close>

text \<open>\<^verbatim>\<open>POST /tasks\<close>. The \<^verbatim>\<open>parent_id\<close> of the body is stored as it is given.\<close>

definition create_task :: "nat \<Rightarrow> db \<Rightarrow> nat \<Rightarrow> task_body option \<Rightarrow> error + nat \<times> db" where
  "create_task u s now body =
     (case body of
        None \<Rightarrow> Inl TitleAndListRequired
      | Some data \<Rightarrow>
          (case (body_title data, body_list_id data) of
             (Some raw, Some l) \<Rightarrow>
               if strip raw = [] then Inl TaskTitleEmpty
               else (case query_list s l u of
                       None \<Rightarrow> Inl ListNotFound
                     | Some _ \<Rightarrow>
                         Inr (add_task s
                               (new_task (strip raw) data l u (body_parent_id data) now)))
           | _ \<Rightarrow> Inl TitleAndListRequired))"

text \<open>\<^verbatim>\<open>PUT /tasks/<task_id>\<close>.\<close>

definition update_task :: "nat \<Rightarrow> db \<Rightarrow> nat \<Rightarrow> nat \<Rightarrow> task_body option \<Rightarrow> error + db" where
  "update_task u s now task_id body =
     (case query_task s task_id u of
        None \<Rightarrow> Inl TaskNotFound
      | Some i \<Rightarrow>
          (case body of
             None \<Rightarrow> Inl NoDataProvided
           | Some data \<Rightarrow>
               if (case body_title data of None \<Rightarrow> False | Some raw \<Rightarrow> strip raw = [])
               then Inl TaskTitleEmpty
               else
                 let s1 = (case body_title data of
                             None \<Rightarrow> s
                           | Some raw \<Rightarrow> update_row s i (\<lambda>t. t\<lparr>title := strip raw\<rparr>));
                     s2 = (case body_description data of
                             None \<Rightarrow> s1
                           | Some d \<Rightarrow> update_row s1 i (\<lambda>t. t\<lparr>description := d\<rparr>));
                     s3 = (case body_urgency data of
                             None \<Rightarrow> s2
                           | Some g \<Rightarrow>
                               if g \<in> set valid_urgencies
                               then update_row s2 i (\<lambda>t. t\<lparr>urgency := g\<rparr>) else s2)
                 in Inr (case body_completed data of
                           None \<Rightarrow> s3
                         | Some True \<Rightarrow> mark_completed s3 now i True
                         | Some False \<Rightarrow> mark_incomplete s3 i True)))"

text \<open>\<^verbatim>\<open>POST /tasks/<parent_id>/subtasks\<close>.\<close>

definition create_subtask ::
  "nat \<Rightarrow> db \<Rightarrow> nat \<Rightarrow> nat \<Rightarrow> task_body option \<Rightarrow> error + nat \<times> db" where
  "create_subtask u s now parent_key body =
     (case query_task s parent_key u of
        None \<Rightarrow> Inl ParentTaskNotFound
      | Some parent_task \<Rightarrow>
          (case body of
             None \<Rightarrow> Inl TitleRequired
           | Some data \<Rightarrow>
               (case body_title data of
                  None \<Rightarrow> Inl TitleRequired
                | Some raw \<Rightarrow>
                    if strip raw = [] then Inl TaskTitleEmpty
                    else (case get_depth s parent_task of
                            None \<Rightarrow> Inl NoResponse
                          | Some d \<Rightarrow>
                              if d \<ge> max_depth then Inl MaxDepthReached
                              else Inr (add_task s
                                         (new_task (strip raw) data
                                            (list_id (task_row s parent_task)) u
                                            (Some parent_key) now))))))"

text \<open>\<^verbatim>\<open>PUT /tasks/<task_id>/move\<close>.\<close>

definition move_task :: "nat \<Rightarrow> db \<Rightarrow> nat \<Rightarrow> move_body option \<Rightarrow> error + db" where
  "move_task u s task_id body =
     (case query_task s task_id u of
        None \<Rightarrow> Inl TaskNotFound
      | Some i \<Rightarrow>
          (case body of
             None \<Rightarrow> Inl NoDataProvided
           | Some data \<Rightarrow>
               (case move_parent_id data of
                  None \<Rightarrow> Inr (update_row s i (\<lambda>t. t\<lparr>parent_id := None\<rparr>))
                | Some new_parent_id \<Rightarrow>
                    (case query_task s new_parent_id u of
                       None \<Rightarrow> Inl NewParentNotFound
                     | Some new_parent \<Rightarrow>
                         (case is_ancestor_of s i new_parent of
                            None \<Rightarrow> Inl NoResponse
                          | Some True \<Rightarrow> Inl CannotMoveToDescendant
                          | Some False \<Rightarrow>
                              (case get_depth s new_parent of
                                 None \<Rightarrow> Inl NoResponse
                               | Some d \<Rightarrow>
                                   if d \<ge> max_depth then Inl MaxDepthReached
                                   else if list_id (task_row s i) \<noteq> list_id (task_row s new_parent)
                                   then Inl CannotMoveToDifferentList
                                   else Inr (update_row s i
                                              (\<lambda>t. t\<lparr>parent_id := Some new_parent_id\<rparr>))))))))"

text \<open>
  \<^verbatim>\<open>PUT /tasks/<task_id>/move-to-list\<close>. The helper \<^verbatim>\<open>update_descendants_list_id\<close>
  sets the list of a task and calls itself on every child; \<open>update_each_list_id\<close> is that
  call made on each task of a list in turn, which is the helper's loop over the children.
  A recursion that does not end is caught by the handler as an exception.
\<close>

partial_function (option) update_each_list_id :: "db \<Rightarrow> nat list \<Rightarrow> nat \<Rightarrow> db option" where
  "update_each_list_id s cs l =
     (case cs of
        [] \<Rightarrow> Some s
      | c # rest \<Rightarrow>
          Option.bind
            (update_each_list_id (update_row s c (\<lambda>t. t\<lparr>list_id := l\<rparr>))
               (children (update_row s c (\<lambda>t. t\<lparr>list_id := l\<rparr>)) c) l)
            (\<lambda>s'. update_each_list_id s' rest l))"

definition update_descendants_list_id :: "db \<Rightarrow> nat \<Rightarrow> nat \<Rightarrow> db option" where
  "update_descendants_list_id s parent_task l = update_each_list_id s [parent_task] l"

definition move_task_to_list ::
  "nat \<Rightarrow> db \<Rightarrow> nat \<Rightarrow> move_to_list_body option \<Rightarrow> error + db" where
  "move_task_to_list u s task_id body =
     (case (case body of None \<Rightarrow> None | Some data \<Rightarrow> new_list_id data) of
        None \<Rightarrow> Inl NewListIdRequired
      | Some l \<Rightarrow>
          (case query_task s task_id u of
             None \<Rightarrow> Inl TaskNotFound
           | Some i \<Rightarrow>
               if parent_id (task_row s i) \<noteq> None then Inl OnlyTopLevelCanMove
               else (case query_list s l u of
                       None \<Rightarrow> Inl DestinationListNotFound
                     | Some _ \<Rightarrow>
                         (case update_descendants_list_id s i l of
                            None \<Rightarrow> Inl FailedToMoveTask
                          | Some s' \<Rightarrow> Inr s'))))"

subsection \<open>The bulk routes\<close>

text \<open>
  \<^verbatim>\<open>PUT /lists/<list_id>/complete-all\<close>: the loop over the top-level tasks of the list.
\<close>

fun complete_each :: "db \<Rightarrow> nat \<Rightarrow> nat list \<Rightarrow> db" where
  "complete_each s now [] = s"
| "complete_each s now (i # rest) =
     complete_each (if \<not> completed (task_row s i) then mark_completed s now i True else s)
       now rest"

definition complete_all_tasks :: "nat \<Rightarrow> db \<Rightarrow> nat \<Rightarrow> nat \<Rightarrow> error + db" where
  "complete_all_tasks u s now l =
     (case query_list s l u of
        None \<Rightarrow> Inl ListNotFound
      | Some _ \<Rightarrow>
          Inr (complete_each s now
                 (filter (\<lambda>i. list_id (task_row s i) = l \<and> user_id (task_row s i) = u \<and>
                               parent_id (task_row s i) = None)
                    (task_ids s))))"

text \<open>
  \<^verbatim>\<open>PUT /lists/<list_id>/uncheck-all\<close>: the loop over all tasks of the list.
\<close>

fun uncheck_each :: "db \<Rightarrow> nat list \<Rightarrow> db" where
  "uncheck_each s [] = s"
| "uncheck_each s (i # rest) = uncheck_each (set_incomplete s i) rest"

definition uncheck_all_tasks :: "nat \<Rightarrow> db \<Rightarrow> nat \<Rightarrow> error + db" where
  "uncheck_all_tasks u s l =
     (case query_list s l u of
        None \<Rightarrow> Inl ListNotFound
      | Some _ \<Rightarrow>
          Inr (uncheck_each s
                 (filter (\<lambda>i. list_id (task_row s i) = l \<and> user_id (task_row s i) = u)
                    (task_ids s))))"

subsection \<open>Example stores\<close>

text \<open>
  A task of user 1 with the given list, parent and completion flag; a completed task has a
  completion time, as every route writes it.
\<close>

definition example_task :: "nat \<Rightarrow> nat option \<Rightarrow> bool \<Rightarrow> task" where
  "example_task l p c =
     \<lparr>title = ''task'', description = [], completed = c, urgency = ''medium'',
      created_at = 0, completed_at = (if c then Some 1 else None),
      user_id = 1, list_id = l, parent_id = p\<rparr>"

definition example_list :: todo_list where
  "example_list =
     \<lparr>list_name = ''list'', list_description = [], list_user_id = 1, list_created_at = 0\<rparr>"

text \<open>Three completed tasks of list 1: task 1 is the parent of 2, task 2 the parent of 3.\<close>

definition completed_chain :: db where
  "completed_chain =
     \<lparr>task_ids = [1, 2, 3],
      task_row = (\<lambda>i. if i = 1 then example_task 1 None True
                      else example_task 1 (Some (i - 1)) True),
      list_ids = [1],
      list_row = (\<lambda>_. example_list)\<rparr>"

text \<open>
  Task 1 is a top-level task that is not completed, its child 2 is completed, and task 3,
  the child of 2, is not.
\<close>

definition skipped_subtree :: db where
  "skipped_subtree =
     \<lparr>task_ids = [1, 2, 3],
      task_row = (\<lambda>i. if i = 1 then example_task 1 None False
                      else if i = 2 then example_task 1 (Some 1) True
                      else example_task 1 (Some 2) False),
      list_ids = [1],
      list_row = (\<lambda>_. example_list)\<rparr>"

text \<open>
  Two trees of list 1: the completed top-level task 1 with the child 2 that is not
  completed, and the top-level task 3 with its child 4, both not completed.
\<close>

definition two_trees :: db where
  "two_trees =
     \<lparr>task_ids = [1, 2, 3, 4],
      task_row = (\<lambda>i. if i = 1 then example_task 1 None True
                      else if i = 2 then example_task 1 (Some 1) False
                      else if i = 3 then example_task 1 None False
                      else example_task 1 (Some 3) False),
      list_ids = [1],
      list_row = (\<lambda>_. example_list)\<rparr>"

text \<open>
  The top-level task 1 with its children 2 and 3, and the top-level task 4, all of list 1;
  lists 1 and 2 belong to user 1.
\<close>

definition moved_tree :: db where
  "moved_tree =
     \<lparr>task_ids = [1, 2, 3, 4],
      task_row = (\<lambda>i. if i = 1 then example_task 1 None False
                      else if i = 4 then example_task 1 None False
                      else example_task 1 (Some 1) False),
      list_ids = [1, 2],
      list_row = (\<lambda>_. example_list)\<rparr>"

text \<open>
  A chain of six tasks of list 1: task 1 is top-level and task \<open>i + 1\<close> is the child of task
  \<open>i\<close>, so task 5 has depth 4 and task 6 has depth 5. A body with a title, which also names
  list 2.
\<close>

definition depth_chain :: db where
  "depth_chain =
     \<lparr>task_ids = [1, 2, 3, 4, 5, 6],
      task_row = (\<lambda>i. if i = 1 then example_task 1 None False
                      else example_task 1 (Some (i - 1)) False),
      list_ids = [1, 2],
      list_row = (\<lambda>_. example_list)\<rparr>"

definition example_body :: task_body where
  "example_body =
     \<lparr>body_title = Some ''sub'', body_list_id = Some 2, body_description = None,
      body_urgency = None, body_parent_id = None, body_completed = None\<rparr>"

text \<open>
  List 1 belongs to user 1. Task 1 is a top-level task of user 1; its child, task 2, is in
  list 1 too and is owned by user 2. Neither is completed.
\<close>

definition shared_list :: db where
  "shared_list =
     \<lparr>task_ids = [1, 2],
      task_row = (\<lambda>i. if i = 1 then example_task 1 None False
                      else (example_task 1 (Some 1) False)\<lparr>user_id := 2\<rparr>),
      list_ids = [1],
      list_row = (\<lambda>_. example_list)\<rparr>"

subsection \<open>Ancestors and descendants\<close>

text \<open>
  The parent chain of a task is acyclic when following the \<^verbatim>\<open>parent\<close> references from
  it ends at a task without parent. In a table, a chain that never repeats a task is
  finite, and a chain that ends never repeats a task.
\<close>

inductive acyclic_chain :: "db \<Rightarrow> nat \<Rightarrow> bool" for s :: db where
  top: "parent s i = None \<Longrightarrow> acyclic_chain s i"
| up: "parent s i = Some p \<Longrightarrow> acyclic_chain s p \<Longrightarrow> acyclic_chain s i"

text \<open>The pairs of a task and its parent.\<close>

definition parent_rel :: "db \<Rightarrow> (nat \<times> nat) set" where
  "parent_rel s = {(c, p). parent s c = Some p}"

text \<open>
  The pairs of a task and a child of it (a row of the table whose \<^verbatim>\<open>parent_id\<close> is the
  task), and those pairs whose child is not completed. A descendant of a task is reached
  from it by a chain of such pairs.
\<close>

definition child_rel :: "db \<Rightarrow> (nat \<times> nat) set" where
  "child_rel s = {(p, c). c \<in> set (task_ids s) \<and> parent_id (task_row s c) = Some p}"

definition open_child :: "db \<Rightarrow> (nat \<times> nat) set" where
  "open_child s =
     {(p, c). c \<in> set (task_ids s) \<and> parent_id (task_row s c) = Some p \<and>
              \<not> completed (task_row s c)}"

text \<open>The store in which every task of a set is marked completed at \<open>now\<close>.\<close>

definition mark_set :: "db \<Rightarrow> nat \<Rightarrow> nat set \<Rightarrow> db" where
  "mark_set s now A =
     s\<lparr>task_row := (\<lambda>x. if x \<in> A then (task_row s x)\<lparr>completed := True, completed_at := Some now\<rparr>
                         else task_row s x)\<rparr>"

text \<open>The completion flag and the completion time of every task of the table agree.\<close>

definition completion_consistent :: "db \<Rightarrow> bool" where
  "completion_consistent s =
     (\<forall>x\<in>set (task_ids s). completed (task_row s x) \<longleftrightarrow> completed_at (task_row s x) \<noteq> None)"

text \<open>The store in which every task of a set is put into list \<open>l\<close>.\<close>

definition set_list_set :: "db \<Rightarrow> nat \<Rightarrow> nat set \<Rightarrow> db" where
  "set_list_set s l A =
     s\<lparr>task_row := (\<lambda>x. if x \<in> A then (task_row s x)\<lparr>list_id := l\<rparr> else task_row s x)\<rparr>"

text \<open>Two stores with the same tasks and the same parent references.\<close>

definition same_tree :: "db \<Rightarrow> db \<Rightarrow> bool" where
  "same_tree s s' \<longleftrightarrow>
     task_ids s' = task_ids s \<and> (\<forall>x. parent_id (task_row s' x) = parent_id (task_row s x))"

text \<open>The child pairs below a task \<open>i\<close>: those whose parent is \<open>i\<close> or a descendant of it.\<close>

definition below :: "db \<Rightarrow> nat \<Rightarrow> (nat \<times> nat) set" where
  "below s i = {(p, c). (p, c) \<in> child_rel s \<and> (i, p) \<in> (child_rel s)\<^sup>*}"

text \<open>Every parent reference of the table names a task of the table (the foreign key).\<close>

definition parents_exist :: "db \<Rightarrow> bool" where
  "parents_exist s =
     (\<forall>x\<in>set (task_ids s). \<forall>q. parent_id (task_row s x) = Some q \<longrightarrow> q \<in> set (task_ids s))"

section \<open>Properties\<close>

subsection \<open>Row updates\<close>

lemma task_ids_update_row [simp]: "task_ids (update_row s i f) = task_ids s"
  by (simp add: update_row_def)

lemma list_ids_update_row [simp]: "list_ids (update_row s i f) = list_ids s"
  by (simp add: update_row_def)

lemma list_row_update_row [simp]: "list_row (update_row s i f) = list_row s"
  by (simp add: update_row_def)

lemma task_row_update_row [simp]:
  "task_row (update_row s i f) x = (if x = i then f (task_row s i) else task_row s x)"
  by (simp add: update_row_def)

lemma task_row_set_incomplete [simp]:
  "task_row (set_incomplete s i) x =
     (if x = i then (task_row s i)\<lparr>completed := False, completed_at := None\<rparr>
      else task_row s x)"
  by (simp add: set_incomplete_def)

lemma task_ids_set_incomplete [simp]: "task_ids (set_incomplete s i) = task_ids s"
  by (simp add: set_incomplete_def)

lemma parent_set_incomplete [simp]: "parent (set_incomplete s i) x = parent s x"
  by (simp add: parent_def split: option.splits)

subsection \<open>Marking a task incomplete\<close>

lemma mark_incomplete_no_cascade: "mark_incomplete s i False = set_incomplete s i"
  by (simp add: Let_def split: option.splits)

lemma mark_incomplete_cascade:
  "mark_incomplete s i True =
     (case parent s i of
        None \<Rightarrow> set_incomplete s i
      | Some p \<Rightarrow>
          if p \<noteq> i \<and> completed (task_row s p)
          then set_incomplete (set_incomplete s i) p else set_incomplete s i)"
  by (subst mark_incomplete.simps)
     (simp add: Let_def mark_incomplete_no_cascade split: option.splits)

declare mark_incomplete.simps [simp del]

text \<open>
  Claim C1, as the code has it. \<^verbatim>\<open>mark_incomplete(cascade=True)\<close> on a task \<open>i\<close> clears
  \<open>completed\<close> and \<open>completed_at\<close> of \<open>i\<close>; when the parent of \<open>i\<close> is completed it
  clears them on that parent too; and it stops there: every task other than \<open>i\<close> and its
  parent keeps its row, the grandparent and all higher ancestors included. The upward walk
  is one hop long, because the call on the parent is made with \<^verbatim>\<open>cascade=False\<close>.
\<close>

theorem C1_mark_incomplete_one_hop:
  "\<not> completed (task_row (mark_incomplete s i True) i) \<and>
   completed_at (task_row (mark_incomplete s i True) i) = None \<and>
   (parent s i = Some p \<and> completed (task_row s p) \<longrightarrow>
      \<not> completed (task_row (mark_incomplete s i True) p) \<and>
      completed_at (task_row (mark_incomplete s i True) p) = None) \<and>
   (x \<noteq> i \<and> parent s i \<noteq> Some x \<longrightarrow>
      task_row (mark_incomplete s i True) x = task_row s x)"
  by (auto simp: mark_incomplete_cascade split: option.splits)

text \<open>
  On the chain of three completed tasks, unmarking task 3 unmarks its parent 2 and leaves
  the grandparent 1 as it was.
\<close>

theorem C1_witness:
  "parent completed_chain 3 = Some 2 \<and> completed (task_row completed_chain 2) \<and>
   \<not> completed (task_row (mark_incomplete completed_chain 3 True) 3) \<and>
   \<not> completed (task_row (mark_incomplete completed_chain 3 True) 2) \<and>
   task_row (mark_incomplete completed_chain 3 True) 1 = task_row completed_chain 1"
proof -
  have p: "parent completed_chain 3 = Some 2" and c: "completed (task_row completed_chain 2)"
    by (simp_all add: completed_chain_def example_task_def parent_def)
  show ?thesis
    using C1_mark_incomplete_one_hop [of completed_chain 3 2 1] p c by simp
qed

text \<open>
  Claim C1 as stated fails: the whole chain of completed ancestors is not unmarked. Tasks 2
  and 1 are the completed parent and grandparent of task 3; after
  \<^verbatim>\<open>mark_incomplete(cascade=True)\<close> on task 3 the grandparent is still completed.
\<close>

theorem C1_grandparent_stays_completed:
  "parent completed_chain 3 = Some 2 \<and> parent completed_chain 2 = Some 1 \<and>
   completed (task_row completed_chain 2) \<and> completed (task_row completed_chain 1) \<and>
   \<not> completed (task_row (mark_incomplete completed_chain 3 True) 2) \<and>
   completed (task_row (mark_incomplete completed_chain 3 True) 1)"
  by (simp add: mark_incomplete_cascade completed_chain_def example_task_def parent_def)

subsection \<open>Depth and the ancestor walk\<close>

lemma get_depth_top: "parent s i = None \<Longrightarrow> get_depth s i = Some 0"
  by (simp add: get_depth.simps)

lemma get_depth_up:
  "parent s i = Some p \<Longrightarrow> get_depth s i = Option.bind (get_depth s p) (\<lambda>d. Some (d + 1))"
  by (simp add: get_depth.simps)

text \<open>\<^verbatim>\<open>get_depth\<close> returns exactly on the acyclic parent chains.\<close>

lemma acyclic_chain_depth: "acyclic_chain s i \<Longrightarrow> \<exists>d. get_depth s i = Some d"
  by (induction rule: acyclic_chain.induct) (auto simp: get_depth_top get_depth_up)

lemma depth_acyclic_chain: "get_depth s i = Some d \<Longrightarrow> acyclic_chain s i"
proof (induction d arbitrary: i)
  case 0
  then show ?case
    by (cases "parent s i") (auto simp: get_depth_up intro: acyclic_chain.top split: bind_splits)
next
  case (Suc d)
  then show ?case
    by (cases "parent s i")
       (auto simp: get_depth_up get_depth_top intro: acyclic_chain.intros split: bind_splits)
qed

lemma ancestor_walk_None: "ancestor_walk s a None = Some False"
  by (simp add: ancestor_walk.simps)

lemma ancestor_walk_Some:
  "ancestor_walk s a (Some c) = (if c = a then Some True else ancestor_walk s a (parent s c))"
  by (simp add: ancestor_walk.simps)

text \<open>A walk that starts at a task less deep than \<open>a\<close> ends without meeting \<open>a\<close>.\<close>

lemma ancestor_walk_below:
  "get_depth s x = Some k \<Longrightarrow> get_depth s a = Some d \<Longrightarrow> k < d \<Longrightarrow>
     ancestor_walk s a (Some x) = Some False"
proof (induction k arbitrary: x)
  case 0
  then have "x \<noteq> a" by auto
  moreover from 0 have "parent s x = None"
    by (cases "parent s x") (auto simp: get_depth_up split: bind_splits)
  ultimately show ?case by (simp add: ancestor_walk_Some ancestor_walk_None)
next
  case (Suc k)
  then have "x \<noteq> a" by auto
  from Suc.prems(1) obtain q where q: "parent s x = Some q" "get_depth s q = Some k"
    by (cases "parent s x") (auto simp: get_depth_up get_depth_top split: bind_splits)
  from Suc.IH[OF q(2) Suc.prems(2)] Suc.prems(3) have "ancestor_walk s a (Some q) = Some False"
    by simp
  with \<open>x \<noteq> a\<close> q show ?case by (simp add: ancestor_walk_Some)
qed

lemma is_ancestor_of_self:
  assumes "acyclic_chain s t"
  shows "is_ancestor_of s t t = Some False"
proof -
  from acyclic_chain_depth[OF assms] obtain d where d: "get_depth s t = Some d" by blast
  show ?thesis
  proof (cases "parent s t")
    case None
    then show ?thesis by (simp add: is_ancestor_of_def ancestor_walk_None)
  next
    case (Some p)
    with d obtain k where "get_depth s p = Some k" "d = k + 1"
      by (auto simp: get_depth_up split: bind_splits)
    with d Some show ?thesis
      using ancestor_walk_below[of s p k t d] by (simp add: is_ancestor_of_def)
  qed
qed

text \<open>The walk finds every task that is on the parent chain it follows.\<close>

lemma ancestor_walk_found:
  "(c, a) \<in> (parent_rel s)\<^sup>* \<Longrightarrow> ancestor_walk s a (Some c) = Some True"
  by (induction rule: converse_rtrancl_induct) (auto simp: ancestor_walk_Some parent_rel_def)

lemma is_ancestor_of_proper:
  "(d, a) \<in> (parent_rel s)\<^sup>+ \<Longrightarrow> is_ancestor_of s a d = Some True"
  by (auto simp: is_ancestor_of_def parent_rel_def dest!: tranclD
      intro: ancestor_walk_found[unfolded parent_rel_def])

text \<open>Moving a task of the caller under a task that has it on its parent chain is rejected.\<close>

lemma move_under_descendant_rejected:
  assumes "query_task s a u = Some a" and "query_task s d u = Some d"
    and "(d, a) \<in> (parent_rel s)\<^sup>+"
  shows "move_task u s a (Some \<lparr>move_parent_id = Some d\<rparr>) = Inl CannotMoveToDescendant"
  using assms by (simp add: move_task_def is_ancestor_of_proper)

text \<open>
  Claim C9. For a task \<open>t\<close> whose parent chain is acyclic, \<^verbatim>\<open>t.is_ancestor_of(t)\<close> is
  \<^verbatim>\<open>False\<close>: the walk starts at the parent of \<open>t\<close>. So the cycle guard of \<^verbatim>\<open>move_task\<close>
  lets a request pass whose new parent is the task itself: for a task of the caller the
  request is answered by the depth check alone, and below the maximal depth the task is
  stored as its own parent.
\<close>

theorem C9_self_is_no_ancestor:
  assumes "acyclic_chain s t"
  shows "is_ancestor_of s t t = Some False \<and>
         (\<exists>d. get_depth s t = Some d \<and>
           (query_task s t u = Some t \<longrightarrow>
              move_task u s t (Some \<lparr>move_parent_id = Some t\<rparr>) =
                (if d \<ge> max_depth then Inl MaxDepthReached
                 else Inr (update_row s t (\<lambda>r. r\<lparr>parent_id := Some t\<rparr>)))))"
proof -
  from acyclic_chain_depth[OF assms] obtain d where d: "get_depth s t = Some d" by blast
  with is_ancestor_of_self[OF assms] show ?thesis
    by (simp add: move_task_def)
qed

theorem C9_witness:
  "acyclic_chain completed_chain 1 \<and> is_ancestor_of completed_chain 1 1 = Some False \<and>
   move_task 1 completed_chain 1 (Some \<lparr>move_parent_id = Some 1\<rparr>) =
     Inr (update_row completed_chain 1 (\<lambda>r. r\<lparr>parent_id := Some 1\<rparr>))"
proof -
  have p: "parent completed_chain 1 = None"
    by (simp add: completed_chain_def example_task_def parent_def)
  have a: "acyclic_chain completed_chain 1"
    by (rule acyclic_chain.top) (rule p)
  have q: "query_task completed_chain 1 1 = Some 1"
    by (simp add: completed_chain_def example_task_def query_task_def)
  have g: "get_depth completed_chain 1 = Some 0"
    by (rule get_depth_top) (rule p)
  from C9_self_is_no_ancestor [OF a, of 1] a q g show ?thesis
    by (auto simp: max_depth_def)
qed

text \<open>
  Claim C3 at the input where the code misses it. Task 1 is a top-level task of user 1.
  The request to move task 1 under task 1 passes every check and the new parent is
  committed; afterwards task 1 is its own parent: the parent relation has a cycle. (For a new parent that has the task on its
  parent chain, \<open>move_under_descendant_rejected\<close> shows that the guard does reject.)
\<close>

theorem C3_self_move_accepted:
  "query_task completed_chain 1 1 = Some 1 \<and> parent completed_chain 1 = None \<and>
   move_task 1 completed_chain 1 (Some \<lparr>move_parent_id = Some 1\<rparr>) =
     Inr (update_row completed_chain 1 (\<lambda>r. r\<lparr>parent_id := Some 1\<rparr>)) \<and>
   parent (update_row completed_chain 1 (\<lambda>r. r\<lparr>parent_id := Some 1\<rparr>)) 1 = Some 1"
  by (simp add: move_task_def query_task_def is_ancestor_of_def parent_def completed_chain_def
      example_task_def ancestor_walk_None get_depth.simps max_depth_def)

subsection \<open>Marking a task completed\<close>

text \<open>Two facts on reachability: leaving the start, and avoiding a closed set.\<close>

lemma reach_skip_start:
  fixes R :: "('a \<times> 'a) set" and i :: 'a
  defines "R0 \<equiv> {(p, c). (p, c) \<in> R \<and> c \<noteq> i}"
  shows "R\<^sup>* `` {i} = insert i (R0\<^sup>* `` (R0 `` {i}))"
proof (intro equalityI subsetI)
  fix x assume "x \<in> R\<^sup>* `` {i}"
  then have "(i, x) \<in> R\<^sup>*" by simp
  then show "x \<in> insert i (R0\<^sup>* `` (R0 `` {i}))"
  proof (induction rule: rtrancl_induct)
    case base
    then show ?case by simp
  next
    case (step y z)
    show ?case
    proof (cases "z = i")
      case True
      then show ?thesis by simp
    next
      case False
      with step.hyps(2) have yz: "(y, z) \<in> R0" by (simp add: R0_def)
      from step.IH show ?thesis
      proof
        assume "y = i"
        with yz show ?thesis by auto
      next
        assume "y \<in> R0\<^sup>* `` (R0 `` {i})"
        with yz show ?thesis by (auto intro: rtrancl_into_rtrancl)
      qed
    qed
  qed
next
  fix x assume x: "x \<in> insert i (R0\<^sup>* `` (R0 `` {i}))"
  have "R0 \<subseteq> R" by (auto simp: R0_def)
  then have "R0\<^sup>* \<subseteq> R\<^sup>*" by (rule rtrancl_mono)
  with x \<open>R0 \<subseteq> R\<close> show "x \<in> R\<^sup>* `` {i}"
    by (auto intro: converse_rtrancl_into_rtrancl)
qed

lemma reach_avoid_closed:
  fixes R :: "('a \<times> 'a) set" and A C X :: "'a set"
  assumes A: "A = R\<^sup>* `` C"
  defines "R1 \<equiv> {(p, c). (p, c) \<in> R \<and> c \<notin> A}"
  shows "A \<union> R1\<^sup>* `` (X - A) = A \<union> R\<^sup>* `` X"
proof (intro equalityI subsetI)
  fix x assume x: "x \<in> A \<union> R1\<^sup>* `` (X - A)"
  have "R1 \<subseteq> R" by (auto simp: R1_def)
  then have "R1\<^sup>* \<subseteq> R\<^sup>*" by (rule rtrancl_mono)
  with x show "x \<in> A \<union> R\<^sup>* `` X" by auto
next
  fix x assume "x \<in> A \<union> R\<^sup>* `` X"
  then show "x \<in> A \<union> R1\<^sup>* `` (X - A)"
  proof
    assume "x \<in> A" then show ?thesis by simp
  next
    assume "x \<in> R\<^sup>* `` X"
    then obtain x0 where x0: "x0 \<in> X" "(x0, x) \<in> R\<^sup>*" by auto
    from x0(2) show ?thesis
    proof (induction rule: rtrancl_induct)
      case base
      with x0(1) show ?case by auto
    next
      case (step y z)
      show ?case
      proof (cases "z \<in> A")
        case True
        then show ?thesis by simp
      next
        case False
        with step.hyps(2) have yz: "(y, z) \<in> R1" by (simp add: R1_def)
        from step.IH show ?thesis
        proof
          assume "y \<in> A"
          with step.hyps(2) have "z \<in> A" unfolding A by (auto intro: rtrancl_into_rtrancl)
          then show ?thesis by simp
        next
          assume "y \<in> R1\<^sup>* `` (X - A)"
          with yz show ?thesis by (auto intro: rtrancl_into_rtrancl)
        qed
      qed
    qed
  qed
qed

lemma mark_set_empty [simp]: "mark_set s now {} = s"
  by (simp add: mark_set_def)

lemma mark_set_mark_set: "mark_set (mark_set s now A) now B = mark_set s now (A \<union> B)"
  by (auto simp: mark_set_def fun_eq_iff)

lemma set_completed_mark_set: "set_completed s now i = mark_set s now {i}"
  by (auto simp: set_completed_def update_row_def mark_set_def fun_eq_iff)

lemma task_ids_mark_set [simp]: "task_ids (mark_set s now A) = task_ids s"
  by (simp add: mark_set_def)

lemma task_row_mark_set:
  "task_row (mark_set s now A) x =
     (if x \<in> A then (task_row s x)\<lparr>completed := True, completed_at := Some now\<rparr>
      else task_row s x)"
  by (simp add: mark_set_def)

lemma children_mark_set [simp]: "children (mark_set s now A) i = children s i"
  by (simp add: children_def task_row_mark_set cong: filter_cong)

lemma open_child_mark_set:
  "open_child (mark_set s now A) = {(p, c). (p, c) \<in> open_child s \<and> c \<notin> A}"
  by (auto simp: open_child_def task_row_mark_set)

lemma open_in_mark_set: "open_in (mark_set s now A) X = open_in s X - A"
  by (auto simp: open_in_def task_row_mark_set)

lemma open_children: "open_in s (set (children s i)) = open_child s `` {i}"
  by (auto simp: open_in_def children_def open_child_def)

declare mark_completed.simps [simp del]

text \<open>
  What the cascade marks: the task, and every task reached from it by a chain of children
  none of which was completed before the call.
\<close>

lemma mark_completed_reach:
  shows "mark_completed s now i cascade =
           mark_set s now (if cascade then (open_child s)\<^sup>* `` {i} else {i})"
    and "mark_children s now cs = mark_set s now ((open_child s)\<^sup>* `` open_in s (set cs))"
proof (induction s now i cascade and s now cs rule: mark_completed_mark_children.induct)
  case (1 s now i cascade)
  show ?case
  proof (cases cascade)
    case False
    then show ?thesis by (simp add: mark_completed.simps set_completed_mark_set)
  next
    case True
    let ?s1 = "mark_set s now {i}"
    have R1: "open_child ?s1 = {(p, c). (p, c) \<in> open_child s \<and> c \<noteq> i}"
      by (simp add: open_child_mark_set)
    have "mark_completed s now i cascade = mark_children ?s1 now (children ?s1 i)"
      using True by (simp add: mark_completed.simps set_completed_mark_set)
    also have "\<dots> = mark_set ?s1 now ((open_child ?s1)\<^sup>* `` open_in ?s1 (set (children ?s1 i)))"
      using 1[OF set_completed_mark_set[symmetric] True] .
    also have "\<dots> = mark_set s now ({i} \<union> (open_child ?s1)\<^sup>* `` (open_child ?s1 `` {i}))"
      by (simp only: open_children mark_set_mark_set)
    also have "{i} \<union> (open_child ?s1)\<^sup>* `` (open_child ?s1 `` {i}) = (open_child s)\<^sup>* `` {i}"
      unfolding R1 using reach_skip_start[of "open_child s" i] by simp
    finally show ?thesis using True by simp
  qed
next
  case (2 s now)
  then show ?case by (simp add: open_in_def)
next
  case (3 s now c cs)
  show ?case
  proof (cases "completed (task_row s c)")
    case True
    then have "open_in s (set (c # cs)) = open_in s (set cs)" by (auto simp: open_in_def)
    with True 3(3) show ?thesis by simp
  next
    case False
    let ?A = "(open_child s)\<^sup>* `` {c}"
    let ?s' = "mark_set s now ?A"
    have m: "mark_completed s now c True = ?s'"
      using 3(1)[OF False] by simp
    have X: "open_in s (set (c # cs)) = insert c (open_in s (set cs))"
      using False by (auto simp: open_in_def)
    have "mark_children s now (c # cs) = mark_children ?s' now cs"
      using False m by simp
    also have "\<dots> = mark_set ?s' now ((open_child ?s')\<^sup>* `` open_in ?s' (set cs))"
      using 3(2)[OF False] m by simp
    also have "\<dots> = mark_set s now (?A \<union> {(p, x). (p, x) \<in> open_child s \<and> x \<notin> ?A}\<^sup>* `` (open_in s (set cs) - ?A))"
      by (simp add: mark_set_mark_set open_child_mark_set open_in_mark_set)
    also have "?A \<union> {(p, x). (p, x) \<in> open_child s \<and> x \<notin> ?A}\<^sup>* `` (open_in s (set cs) - ?A)
        = ?A \<union> (open_child s)\<^sup>* `` open_in s (set cs)"
      by (rule reach_avoid_closed) (rule refl)
    also have "\<dots> = (open_child s)\<^sup>* `` open_in s (set (c # cs))"
      unfolding X by auto
    finally show ?thesis .
  qed
qed

lemma open_child_subset: "open_child s \<subseteq> child_rel s"
  by (auto simp: open_child_def child_rel_def)

text \<open>
  Claim C5, as the code has it. \<^verbatim>\<open>mark_completed(cascade=True)\<close> on a task \<open>i\<close> sets
  \<open>completed\<close> and a completion time on \<open>i\<close> and on every descendant that is linked to
  \<open>i\<close> by a chain of children none of which was completed before the call; every other
  task keeps its row. A child that is already completed is skipped together with its
  subtree.
\<close>

theorem C5_mark_completed_cascade:
  "((i, x) \<in> (open_child s)\<^sup>* \<longrightarrow>
      completed (task_row (mark_completed s now i True) x) \<and>
      completed_at (task_row (mark_completed s now i True) x) = Some now) \<and>
   ((i, x) \<notin> (open_child s)\<^sup>* \<longrightarrow>
      task_row (mark_completed s now i True) x = task_row s x)"
  by (simp add: mark_completed_reach task_row_mark_set)

text \<open>When no descendant is completed before the call, the whole subtree is marked.\<close>

lemma mark_completed_whole_subtree:
  assumes "\<forall>d. (i, d) \<in> (child_rel s)\<^sup>+ \<longrightarrow> \<not> completed (task_row s d)"
    and "(i, x) \<in> (child_rel s)\<^sup>*"
  shows "completed (task_row (mark_completed s now i True) x) \<and>
         completed_at (task_row (mark_completed s now i True) x) = Some now"
proof -
  from assms(2) have "(i, x) \<in> (open_child s)\<^sup>*"
  proof (induction rule: rtrancl_induct)
    case base
    then show ?case by simp
  next
    case (step y z)
    then have "(i, z) \<in> (child_rel s)\<^sup>+" by (auto intro: rtrancl_into_trancl1)
    with assms(1) have "\<not> completed (task_row s z)" by blast
    with step.hyps(2) have "(y, z) \<in> open_child s"
      by (auto simp: open_child_def child_rel_def)
    with step.IH show ?case by (rule rtrancl_into_rtrancl)
  qed
  then show ?thesis by (simp add: mark_completed_reach task_row_mark_set)
qed

theorem C5_witness:
  "(1, 1) \<in> (open_child skipped_subtree)\<^sup>* \<and>
   completed (task_row (mark_completed skipped_subtree 9 1 True) 1) \<and>
   completed_at (task_row (mark_completed skipped_subtree 9 1 True) 1) = Some 9 \<and>
   (1, 3) \<notin> (open_child skipped_subtree)\<^sup>* \<and>
   task_row (mark_completed skipped_subtree 9 1 True) 3 = task_row skipped_subtree 3"
proof -
  have a: "(1, 1) \<in> (open_child skipped_subtree)\<^sup>*" by simp
  have e: "open_child skipped_subtree `` {1} = {}"
    by (auto simp: open_child_def skipped_subtree_def example_task_def)
  have b: "(1, 3) \<notin> (open_child skipped_subtree)\<^sup>*"
  proof
    assume "(1, 3) \<in> (open_child skipped_subtree)\<^sup>*"
    then show False
    proof (cases rule: converse_rtranclE)
      case base
      then show ?thesis by simp
    next
      case (step y)
      with e show ?thesis by blast
    qed
  qed
  from C5_mark_completed_cascade [of 1 1 skipped_subtree 9]
    C5_mark_completed_cascade [of 1 3 skipped_subtree 9] a b
  show ?thesis by simp
qed

text \<open>
  Claim C5 as stated fails for a descendant below a completed child: task 3 is a child of
  the completed task 2, which is a child of task 1; after \<^verbatim>\<open>mark_completed(cascade=True)\<close>
  on task 1, task 3 is still not completed and has no completion time.
\<close>

theorem C5_completed_child_hides_grandchild:
  "parent skipped_subtree 3 = Some 2 \<and> parent skipped_subtree 2 = Some 1 \<and>
   completed (task_row skipped_subtree 2) \<and>
   \<not> completed (task_row (mark_completed skipped_subtree 9 1 True) 3) \<and>
   completed_at (task_row (mark_completed skipped_subtree 9 1 True) 3) = None"
  by (simp add: mark_completed.simps children_def set_completed_def parent_def
      skipped_subtree_def example_task_def)

subsection \<open>Completing all tasks of a list\<close>

text \<open>The loop of the route is the loop of the cascade.\<close>

lemma complete_each_mark_children: "complete_each s now xs = mark_children s now xs"
  by (induction s now xs rule: complete_each.induct) simp_all

lemma single_valued_parent: "single_valued ((child_rel s)\<inverse>)"
  by (auto simp: single_valued_def child_rel_def)

lemma top_level_no_parent:
  assumes "(a, r) \<in> (child_rel s)\<^sup>*" and "parent_id (task_row s r) = None"
  shows "a = r"
  using assms(1)
proof (cases rule: rtranclE)
  case base
  then show ?thesis .
next
  case (step y)
  with assms(2) show ?thesis by (simp add: child_rel_def)
qed

lemma top_level_unique:
  assumes "(r, d) \<in> (child_rel s)\<^sup>*" "(r', d) \<in> (child_rel s)\<^sup>*"
    and "parent_id (task_row s r) = None" "parent_id (task_row s r') = None"
  shows "r = r'"
proof -
  from assms(1,2) have "(d, r) \<in> ((child_rel s)\<inverse>)\<^sup>*" "(d, r') \<in> ((child_rel s)\<inverse>)\<^sup>*"
    by (simp_all add: rtrancl_converse)
  from single_valued_confluent[OF single_valued_parent this]
  have "(r', r) \<in> (child_rel s)\<^sup>* \<or> (r, r') \<in> (child_rel s)\<^sup>*"
    by (auto simp: rtrancl_converse)
  with assms(3,4) show ?thesis
    by (auto dest: top_level_no_parent)
qed

text \<open>
  Claim C10. \<^verbatim>\<open>complete_all_tasks\<close> leaves the tree of a completed top-level task as it
  is: when the top-level ancestor \<open>r\<close> of a task \<open>d\<close> (\<open>d\<close> may be \<open>r\<close> itself) is completed
  before the call, the row of \<open>d\<close> is unchanged, so a descendant that was not completed
  stays so.
\<close>

theorem C10_complete_all_skips_completed_top_level:
  assumes "complete_all_tasks u s now l = Inr s'"
    and "parent_id (task_row s r) = None" and "completed (task_row s r)"
    and "(r, d) \<in> (child_rel s)\<^sup>*"
  shows "task_row s' d = task_row s d"
proof -
  let ?tops = "filter (\<lambda>i. list_id (task_row s i) = l \<and> user_id (task_row s i) = u \<and>
                            parent_id (task_row s i) = None) (task_ids s)"
  from assms(1) have "s' = complete_each s now ?tops"
    by (simp add: complete_all_tasks_def split: option.splits)
  then have s': "s' = mark_set s now ((open_child s)\<^sup>* `` open_in s (set ?tops))"
    by (simp only: complete_each_mark_children mark_completed_reach(2))
  have "d \<notin> (open_child s)\<^sup>* `` open_in s (set ?tops)"
  proof
    assume "d \<in> (open_child s)\<^sup>* `` open_in s (set ?tops)"
    then obtain r' where r': "r' \<in> open_in s (set ?tops)" "(r', d) \<in> (open_child s)\<^sup>*"
      by auto
    from r'(2) have rd: "(r', d) \<in> (child_rel s)\<^sup>*"
      using rtrancl_mono[OF open_child_subset] by blast
    from r'(1) have top: "parent_id (task_row s r') = None"
      and inc: "\<not> completed (task_row s r')"
      by (simp_all add: open_in_def)
    have "r = r'"
      by (rule top_level_unique[OF assms(4) rd assms(2) top])
    with assms(3) inc show False by simp
  qed
  then have "task_row (mark_set s now ((open_child s)\<^sup>* `` open_in s (set ?tops))) d = task_row s d"
    by (simp only: task_row_mark_set if_False)
  with s' show ?thesis by (simp only:)
qed

theorem C10_witness:
  "complete_all_tasks 1 two_trees 9 1 = Inr (mark_completed two_trees 9 3 True) \<and>
   parent_id (task_row two_trees 1) = None \<and> completed (task_row two_trees 1) \<and>
   (1, 2) \<in> (child_rel two_trees)\<^sup>* \<and>
   \<not> completed (task_row two_trees 2) \<and>
   task_row (mark_completed two_trees 9 3 True) 2 = task_row two_trees 2 \<and>
   completed (task_row (mark_completed two_trees 9 3 True) 4)"
proof -
  have c: "complete_all_tasks 1 two_trees 9 1 = Inr (mark_completed two_trees 9 3 True)"
    by (simp add: complete_all_tasks_def query_list_def two_trees_def example_task_def
        example_list_def)
  have p: "parent_id (task_row two_trees 1) = None" "completed (task_row two_trees 1)"
    by (simp_all add: two_trees_def example_task_def)
  have "(1, 2) \<in> child_rel two_trees"
    by (simp add: child_rel_def two_trees_def example_task_def)
  then have r: "(1, 2) \<in> (child_rel two_trees)\<^sup>*" by (rule r_into_rtrancl)
  have m: "completed (task_row (mark_completed two_trees 9 3 True) 4)"
    by (simp add: mark_completed.simps children_def set_completed_def two_trees_def
        example_task_def)
  have n: "\<not> completed (task_row two_trees 2)"
    by (simp add: two_trees_def example_task_def)
  from C10_complete_all_skips_completed_top_level [OF c p r] c p r m n
  show ?thesis by simp
qed

subsection \<open>Unchecking all tasks of a list\<close>

lemma uncheck_each_ids [simp]: "task_ids (uncheck_each s xs) = task_ids s"
  by (induction xs arbitrary: s) simp_all

lemma uncheck_each_row:
  "task_row (uncheck_each s xs) x =
     (if x \<in> set xs then (task_row s x)\<lparr>completed := False, completed_at := None\<rparr>
      else task_row s x)"
  by (induction xs arbitrary: s) simp_all

lemma uncheck_each_lists [simp]:
  "list_ids (uncheck_each s xs) = list_ids s" "list_row (uncheck_each s xs) = list_row s"
  by (induction xs arbitrary: s) (simp_all add: set_incomplete_def)

lemma mark_set_lists [simp]:
  "list_ids (mark_set s now A) = list_ids s" "list_row (mark_set s now A) = list_row s"
  by (simp_all add: mark_set_def)

lemma query_list_mark_set [simp]: "query_list (mark_set s now A) l u = query_list s l u"
  by (simp add: query_list_def)

lemma complete_all_tasks_reach:
  "complete_all_tasks u s now l =
     (case query_list s l u of
        None \<Rightarrow> Inl ListNotFound
      | Some _ \<Rightarrow>
          Inr (mark_set s now ((open_child s)\<^sup>* ``
                 open_in s {i \<in> set (task_ids s). list_id (task_row s i) = l \<and>
                   user_id (task_row s i) = u \<and> parent_id (task_row s i) = None})))"
  by (simp add: complete_all_tasks_def complete_each_mark_children mark_completed_reach(2)
      split: option.splits)

text \<open>
  Claim C7, as the code has it. Let \<open>l\<close> be a list of the caller \<open>u\<close>. Then
  \<^verbatim>\<open>uncheck_all_tasks\<close> succeeds and clears \<open>completed\<close> and \<open>completed_at\<close> on every
  task of the table whose list is \<open>l\<close> and whose owner is \<open>u\<close>, whatever its depth, and
  changes nothing else of these rows. Every other task keeps its row: a task of another
  list (there is no cascade to a parent or a child), and a task of \<open>l\<close> that another user
  owns. Consequently \<^verbatim>\<open>complete_all_tasks\<close> followed by \<^verbatim>\<open>uncheck_all_tasks\<close> on \<open>l\<close>
  leaves every task of \<open>l\<close> that the caller owns not completed.
\<close>

theorem C7_uncheck_all_flat:
  assumes "query_list s l u = Some l"
  shows "\<exists>s'. uncheck_all_tasks u s l = Inr s' \<and> task_ids s' = task_ids s \<and>
           (\<forall>x\<in>set (task_ids s).
              list_id (task_row s x) = l \<and> user_id (task_row s x) = u \<longrightarrow>
              task_row s' x = (task_row s x)\<lparr>completed := False, completed_at := None\<rparr>) \<and>
           (\<forall>x. list_id (task_row s x) \<noteq> l \<or> user_id (task_row s x) \<noteq> u \<longrightarrow>
              task_row s' x = task_row s x) \<and>
           (\<exists>s1 s2. complete_all_tasks u s now l = Inr s1 \<and>
              uncheck_all_tasks u s1 l = Inr s2 \<and> task_ids s2 = task_ids s \<and>
              (\<forall>x\<in>set (task_ids s).
                 list_id (task_row s x) = l \<and> user_id (task_row s x) = u \<longrightarrow>
                 list_id (task_row s2 x) = l \<and> \<not> completed (task_row s2 x) \<and>
                 completed_at (task_row s2 x) = None))"
  using assms
  by (auto simp: uncheck_all_tasks_def complete_all_tasks_reach uncheck_each_row
      task_row_mark_set)

text \<open>
  In the store of two trees, all of list 1 and of user 1: the completed top-level task 1
  and the nested task 4 are both cleared.
\<close>

theorem C7_witness:
  "query_list two_trees 1 1 = Some 1 \<and>
   uncheck_all_tasks 1 two_trees 1 = Inr (uncheck_each two_trees [1, 2, 3, 4]) \<and>
   completed (task_row two_trees 1) \<and> parent two_trees 4 = Some 3 \<and>
   \<not> completed (task_row (uncheck_each two_trees [1, 2, 3, 4]) 1) \<and>
   completed_at (task_row (uncheck_each two_trees [1, 2, 3, 4]) 4) = None"
proof -
  have q: "query_list two_trees 1 1 = Some 1"
    by (simp add: query_list_def two_trees_def example_list_def)
  have e: "uncheck_all_tasks 1 two_trees 1 = Inr (uncheck_each two_trees [1, 2, 3, 4])"
    by (simp add: uncheck_all_tasks_def query_list_def two_trees_def example_list_def
        example_task_def)
  have l: "list_id (task_row two_trees 1) = 1" "list_id (task_row two_trees 4) = 1"
    "user_id (task_row two_trees 1) = 1" "user_id (task_row two_trees 4) = 1"
    "1 \<in> set (task_ids two_trees)" "4 \<in> set (task_ids two_trees)"
    "completed (task_row two_trees 1)" "parent two_trees 4 = Some 3"
    by (simp_all add: two_trees_def example_task_def parent_def)
  from C7_uncheck_all_flat [OF q, of 9] e l q show ?thesis
    by auto
qed

text \<open>
  Claim C7 as stated fails for a task of the list that the caller does not own. Task 2 is
  a task of list 1 owned by user 2, the child of task 1 of user 1. \<^verbatim>\<open>complete_all_tasks\<close>
  by user 1 marks task 1 and, by the cascade, task 2; \<^verbatim>\<open>uncheck_all_tasks\<close> by user 1
  then clears task 1 only, and task 2 of list 1 is still completed.
\<close>

theorem C7_task_of_other_user_stays_completed:
  "query_list shared_list 1 1 = Some 1 \<and> list_id (task_row shared_list 2) = 1 \<and>
   user_id (task_row shared_list 2) = 2 \<and>
   complete_all_tasks 1 shared_list 9 1 = Inr (mark_completed shared_list 9 1 True) \<and>
   uncheck_all_tasks 1 (mark_completed shared_list 9 1 True) 1 =
     Inr (uncheck_each (mark_completed shared_list 9 1 True) [1]) \<and>
   list_id (task_row (uncheck_each (mark_completed shared_list 9 1 True) [1]) 2) = 1 \<and>
   \<not> completed (task_row (uncheck_each (mark_completed shared_list 9 1 True) [1]) 1) \<and>
   completed (task_row (uncheck_each (mark_completed shared_list 9 1 True) [1]) 2)"
proof -
  have a: "query_list shared_list 1 1 = Some 1" "list_id (task_row shared_list 2) = 1"
    "user_id (task_row shared_list 2) = 2"
    by (simp_all add: query_list_def shared_list_def example_list_def example_task_def)
  have c: "complete_all_tasks 1 shared_list 9 1 = Inr (mark_completed shared_list 9 1 True)"
    by (simp add: complete_all_tasks_def query_list_def shared_list_def example_task_def
        example_list_def)
  have m: "mark_completed shared_list 9 1 True = mark_set shared_list 9 {1, 2}"
  proof -
    have "open_child shared_list = {(1, 2)}"
      by (auto simp: open_child_def shared_list_def example_task_def split: if_splits)
    then have "(open_child shared_list)\<^sup>* `` {1} = {1, 2}"
      by (auto elim: rtranclE)
    then show ?thesis by (simp add: mark_completed_reach(1))
  qed
  have u: "uncheck_all_tasks 1 (mark_set shared_list 9 {1, 2}) 1 =
      Inr (uncheck_each (mark_set shared_list 9 {1, 2}) [1])"
    by (simp add: uncheck_all_tasks_def task_row_mark_set query_list_def shared_list_def
        example_list_def example_task_def)
  have r: "list_id (task_row (uncheck_each (mark_set shared_list 9 {1, 2}) [1]) 2) = 1"
    "\<not> completed (task_row (uncheck_each (mark_set shared_list 9 {1, 2}) [1]) 1)"
    "completed (task_row (uncheck_each (mark_set shared_list 9 {1, 2}) [1]) 2)"
    by (simp_all add: uncheck_each_row task_row_mark_set shared_list_def example_task_def)
  from a c u r show ?thesis unfolding m by simp
qed

subsection \<open>The completion flag and the completion time\<close>

lemma consistent_update_row:
  assumes "completion_consistent s"
    and "i \<in> set (task_ids s) \<Longrightarrow>
           completed (f (task_row s i)) \<longleftrightarrow> completed_at (f (task_row s i)) \<noteq> None"
  shows "completion_consistent (update_row s i f)"
  using assms by (auto simp: completion_consistent_def)

lemma consistent_mark_set:
  "completion_consistent s \<Longrightarrow> completion_consistent (mark_set s now A)"
  by (auto simp: completion_consistent_def task_row_mark_set)

lemma consistent_set_incomplete:
  "completion_consistent s \<Longrightarrow> completion_consistent (set_incomplete s i)"
  by (auto simp: completion_consistent_def)

lemma consistent_mark_incomplete:
  "completion_consistent s \<Longrightarrow> completion_consistent (mark_incomplete s i c)"
  by (cases c)
     (auto simp: mark_incomplete_cascade mark_incomplete_no_cascade consistent_set_incomplete
       split: option.splits)

lemma consistent_mark_completed:
  "completion_consistent s \<Longrightarrow> completion_consistent (mark_completed s now i c)"
  by (simp add: mark_completed_reach(1) consistent_mark_set)

lemma consistent_uncheck_each:
  "completion_consistent s \<Longrightarrow> completion_consistent (uncheck_each s xs)"
  by (auto simp: completion_consistent_def uncheck_each_row)

lemma consistent_add_task:
  assumes "completion_consistent s" and "completed t \<longleftrightarrow> completed_at t \<noteq> None"
  shows "completion_consistent (snd (add_task s t))"
  using assms by (auto simp: completion_consistent_def add_task_def insert_row_def Let_def)

lemma consistent_new_task:
  "completed (new_task ttl data l u p now) \<longleftrightarrow> completed_at (new_task ttl data l u p now) \<noteq> None"
  by (simp add: new_task_def)

lemma consistent_update_task:
  assumes "completion_consistent s" and "update_task u s now i b = Inr s'"
  shows "completion_consistent s'"
proof -
  from assms(2) obtain data where b: "b = Some data"
    by (auto simp: update_task_def split: option.splits)
  define s1 where "s1 = (case body_title data of None \<Rightarrow> s
      | Some raw \<Rightarrow> update_row s i (\<lambda>t. t\<lparr>title := strip raw\<rparr>))"
  define s2 where "s2 = (case body_description data of None \<Rightarrow> s1
      | Some d \<Rightarrow> update_row s1 i (\<lambda>t. t\<lparr>description := d\<rparr>))"
  define s3 where "s3 = (case body_urgency data of None \<Rightarrow> s2
      | Some g \<Rightarrow> if g \<in> set valid_urgencies
                  then update_row s2 i (\<lambda>t. t\<lparr>urgency := g\<rparr>) else s2)"
  have c1: "completion_consistent s1"
    using assms(1) by (auto simp: s1_def completion_consistent_def split: option.splits)
  then have c2: "completion_consistent s2"
    by (auto simp: s2_def completion_consistent_def split: option.splits)
  then have c3: "completion_consistent s3"
    by (auto simp: s3_def completion_consistent_def split: option.splits)
  from assms(2) have q: "query_task s i u = Some i"
    by (auto simp: update_task_def query_task_def split: option.splits if_splits)
  from assms(2) b q have "s' = (case body_completed data of None \<Rightarrow> s3
      | Some True \<Rightarrow> mark_completed s3 now i True
      | Some False \<Rightarrow> mark_incomplete s3 i True)"
    unfolding update_task_def Let_def s1_def s2_def s3_def by (simp split: if_splits)
  with c3 show ?thesis
    by (auto simp: consistent_mark_completed consistent_mark_incomplete
        split: option.splits bool.splits)
qed

text \<open>
  Claim C6. In a store where \<open>completed\<close> holds exactly for the tasks with a
  \<open>completed_at\<close>, this is so again after \<^verbatim>\<open>mark_completed\<close>, after \<^verbatim>\<open>mark_incomplete\<close>,
  and after every successful \<^verbatim>\<open>complete_all_tasks\<close>, \<^verbatim>\<open>uncheck_all_tasks\<close>,
  \<^verbatim>\<open>create_task\<close>, \<^verbatim>\<open>create_subtask\<close> and \<^verbatim>\<open>update_task\<close>. (A rejected request changes
  nothing.)
\<close>

theorem C6_completed_iff_completed_at:
  assumes "completion_consistent s"
  shows "completion_consistent (mark_completed s now i c) \<and>
         completion_consistent (mark_incomplete s i c) \<and>
         (complete_all_tasks u s now l = Inr s1 \<longrightarrow> completion_consistent s1) \<and>
         (uncheck_all_tasks u s l = Inr s2 \<longrightarrow> completion_consistent s2) \<and>
         (create_task u s now b = Inr (n3, s3) \<longrightarrow> completion_consistent s3) \<and>
         (create_subtask u s now p b = Inr (n4, s4) \<longrightarrow> completion_consistent s4) \<and>
         (update_task u s now i b = Inr s5 \<longrightarrow> completion_consistent s5)"
proof (intro conjI impI)
  show "completion_consistent (mark_completed s now i c)"
    using assms by (rule consistent_mark_completed)
  show "completion_consistent (mark_incomplete s i c)"
    using assms by (rule consistent_mark_incomplete)
  show "completion_consistent s1" if "complete_all_tasks u s now l = Inr s1"
    using that assms
    by (auto simp: complete_all_tasks_reach consistent_mark_set split: option.splits)
  show "completion_consistent s2" if "uncheck_all_tasks u s l = Inr s2"
    using that assms
    by (auto simp: uncheck_all_tasks_def consistent_uncheck_each split: option.splits)
  show "completion_consistent s3" if "create_task u s now b = Inr (n3, s3)"
  proof -
    from that obtain t where "add_task s t = (n3, s3)" "completed t \<longleftrightarrow> completed_at t \<noteq> None"
      by (auto simp: create_task_def consistent_new_task split: option.splits if_splits)
    with consistent_add_task[OF assms, of t] show ?thesis by simp
  qed
  show "completion_consistent s4" if "create_subtask u s now p b = Inr (n4, s4)"
  proof -
    from that obtain t where "add_task s t = (n4, s4)" "completed t \<longleftrightarrow> completed_at t \<noteq> None"
      by (auto simp: create_subtask_def consistent_new_task split: option.splits if_splits)
    with consistent_add_task[OF assms, of t] show ?thesis by simp
  qed
  show "completion_consistent s5" if "update_task u s now i b = Inr s5"
    using assms that by (rule consistent_update_task)
qed

theorem C6_witness:
  "completion_consistent two_trees \<and>
   completion_consistent (mark_completed two_trees 9 3 True) \<and>
   completion_consistent (mark_incomplete two_trees 3 True) \<and>
   complete_all_tasks 1 two_trees 9 1 = Inr (mark_completed two_trees 9 3 True) \<and>
   uncheck_all_tasks 1 two_trees 1 = Inr (uncheck_each two_trees [1, 2, 3, 4]) \<and>
   completion_consistent (uncheck_each two_trees [1, 2, 3, 4])"
proof -
  have c: "completion_consistent two_trees"
    by (simp add: completion_consistent_def two_trees_def example_task_def)
  have a: "complete_all_tasks 1 two_trees 9 1 = Inr (mark_completed two_trees 9 3 True)"
    by (simp add: complete_all_tasks_def query_list_def two_trees_def example_task_def
        example_list_def)
  have e: "uncheck_all_tasks 1 two_trees 1 = Inr (uncheck_each two_trees [1, 2, 3, 4])"
    by (simp add: uncheck_all_tasks_def query_list_def two_trees_def example_list_def
        example_task_def)
  from C6_completed_iff_completed_at
         [OF c, where now = 9 and i = 3 and c = True and u = 1 and l = 1
            and ?s1.0 = "mark_completed two_trees 9 3 True"
            and ?s2.0 = "uncheck_each two_trees [1, 2, 3, 4]"]
    c a e
  show ?thesis by simp
qed

subsection \<open>Moving a tree to another list\<close>

lemma set_list_set_empty [simp]: "set_list_set s l {} = s"
  by (simp add: set_list_set_def)

lemma set_list_set_twice: "set_list_set (set_list_set s l A) l B = set_list_set s l (A \<union> B)"
  by (auto simp: set_list_set_def fun_eq_iff)

lemma update_row_list_id: "update_row s c (\<lambda>t. t\<lparr>list_id := l\<rparr>) = set_list_set s l {c}"
  by (auto simp: update_row_def set_list_set_def fun_eq_iff)

lemma task_row_set_list_set:
  "task_row (set_list_set s l A) x =
     (if x \<in> A then (task_row s x)\<lparr>list_id := l\<rparr> else task_row s x)"
  by (simp add: set_list_set_def)

lemma task_ids_set_list_set [simp]: "task_ids (set_list_set s l A) = task_ids s"
  by (simp add: set_list_set_def)

lemma child_rel_set_list_set [simp]: "child_rel (set_list_set s l A) = child_rel s"
  by (auto simp: child_rel_def task_row_set_list_set)

lemma children_child_rel: "set (children s c) = child_rel s `` {c}"
  by (auto simp: children_def child_rel_def)

lemma reach_unfold: "R\<^sup>* `` insert c X = insert c (R\<^sup>* `` (R `` {c})) \<union> R\<^sup>* `` X"
  by (auto intro: converse_rtrancl_into_rtrancl elim: converse_rtranclE)

lemma update_each_list_id_Nil: "update_each_list_id s [] l = Some s"
  by (simp add: update_each_list_id.simps)

lemma update_each_list_id_Cons:
  "update_each_list_id s (c # rest) l =
     Option.bind
       (update_each_list_id (set_list_set s l {c}) (children (set_list_set s l {c}) c) l)
       (\<lambda>s'. update_each_list_id s' rest l)"
  by (subst update_each_list_id.simps) (simp add: update_row_list_id)

lemma update_each_list_id_reach:
  assumes "update_each_list_id s cs l = Some s'"
  shows "s' = set_list_set s l ((child_rel s)\<^sup>* `` set cs)"
proof (rule update_each_list_id.raw_induct
    [where P = "\<lambda>s cs l s'. s' = set_list_set s l ((child_rel s)\<^sup>* `` set cs)", OF _ assms])
  fix f :: "db \<Rightarrow> nat list \<Rightarrow> nat \<Rightarrow> db option" and s cs l s'
  assume IH: "\<And>s cs l s'. f s cs l = Some s' \<Longrightarrow>
                s' = set_list_set s l ((child_rel s)\<^sup>* `` set cs)"
    and eq: "(case cs of [] \<Rightarrow> Some s
              | c # rest \<Rightarrow>
                  Option.bind
                    (f (update_row s c (\<lambda>t. t\<lparr>list_id := l\<rparr>))
                       (children (update_row s c (\<lambda>t. t\<lparr>list_id := l\<rparr>)) c) l)
                    (\<lambda>s'. f s' rest l)) = Some s'"
  show "s' = set_list_set s l ((child_rel s)\<^sup>* `` set cs)"
  proof (cases cs)
    case Nil
    with eq show ?thesis by simp
  next
    case (Cons c rest)
    let ?s1 = "set_list_set s l {c}"
    from eq Cons obtain s2 where s2: "f ?s1 (children ?s1 c) l = Some s2"
      and s': "f s2 rest l = Some s'"
      by (auto simp: update_row_list_id split: bind_splits)
    from IH[OF s2]
    have e2: "s2 = set_list_set s l ({c} \<union> (child_rel s)\<^sup>* `` (child_rel s `` {c}))"
      by (simp add: set_list_set_twice children_child_rel)
    from IH[OF s'] have "s' = set_list_set s2 l ((child_rel s2)\<^sup>* `` set rest)" .
    then have "s' = set_list_set s l
        (({c} \<union> (child_rel s)\<^sup>* `` (child_rel s `` {c})) \<union> (child_rel s)\<^sup>* `` set rest)"
      unfolding e2 by (simp add: set_list_set_twice)
    also have "({c} \<union> (child_rel s)\<^sup>* `` (child_rel s `` {c})) \<union> (child_rel s)\<^sup>* `` set rest
        = (child_rel s)\<^sup>* `` set cs"
      unfolding Cons using reach_unfold[of "child_rel s" c "set rest"] by simp
    finally show ?thesis .
  qed
qed

lemma same_tree_refl [simp]: "same_tree s s"
  by (simp add: same_tree_def)

lemma same_tree_set_list_set: "same_tree s0 s \<Longrightarrow> same_tree s0 (set_list_set s l A)"
  by (simp add: same_tree_def task_row_set_list_set)

lemma same_tree_children: "same_tree s0 s \<Longrightarrow> children s c = children s0 c"
  by (simp add: same_tree_def children_def)

text \<open>Below a top-level task, no task is its own descendant.\<close>

lemma below_top_level_no_cycle:
  assumes "parent_id (task_row s i) = None" and "(i, x) \<in> (child_rel s)\<^sup>*"
  shows "(x, x) \<notin> (child_rel s)\<^sup>+"
  using assms(2)
proof (induction rule: rtrancl_induct)
  case base
  show ?case
  proof
    assume "(i, i) \<in> (child_rel s)\<^sup>+"
    then obtain w where "(w, i) \<in> child_rel s" by (auto dest: tranclD2)
    with assms(1) show False by (simp add: child_rel_def)
  qed
next
  case (step y z)
  show ?case
  proof
    assume "(z, z) \<in> (child_rel s)\<^sup>+"
    then obtain w where w: "(z, w) \<in> (child_rel s)\<^sup>*" "(w, z) \<in> child_rel s"
      by (auto dest: tranclD2)
    from w(2) step.hyps(2) have "w = y" by (simp add: child_rel_def)
    with w(1) step.hyps(2) have "(y, y) \<in> (child_rel s)\<^sup>+"
      by (auto intro: rtrancl_into_trancl2)
    with step.IH show False by simp
  qed
qed

lemma finite_child_rel: "finite (child_rel s)"
proof -
  have "child_rel s \<subseteq> (\<lambda>c. (the (parent_id (task_row s c)), c)) ` set (task_ids s)"
    by (auto simp: child_rel_def image_iff)
  then show ?thesis by (rule finite_subset) simp
qed

lemma below_trancl:
  "(x, y) \<in> (below s i)\<^sup>+ \<Longrightarrow> (x, y) \<in> (child_rel s)\<^sup>+ \<and> (i, x) \<in> (child_rel s)\<^sup>*"
proof (induction rule: trancl_induct)
  case (base y)
  then show ?case by (auto simp: below_def)
next
  case (step y z)
  then show ?case by (auto simp: below_def intro: trancl_into_trancl)
qed

lemma wf_below:
  assumes "parent_id (task_row s i) = None"
  shows "wf ((below s i)\<inverse>)"
proof (rule finite_acyclic_wf_converse)
  have "below s i \<subseteq> child_rel s" by (auto simp: below_def)
  then show "finite (below s i)" by (rule finite_subset) (rule finite_child_rel)
  show "acyclic (below s i)"
    unfolding acyclic_def
  proof (intro allI notI)
    fix x assume "(x, x) \<in> (below s i)\<^sup>+"
    from below_trancl[OF this] below_top_level_no_cycle[OF assms, of x]
    show False by simp
  qed
qed

text \<open>
  The helper returns on every tree below a top-level task: by well-founded induction on
  the child pairs below it, with the list induction of the loop inside.
\<close>

lemma update_each_list_id_all:
  assumes "\<forall>c\<in>set cs. \<forall>s. same_tree s0 s \<longrightarrow>
             (\<exists>s'. update_each_list_id s [c] l = Some s' \<and> same_tree s0 s')"
    and "same_tree s0 s"
  shows "\<exists>s'. update_each_list_id s cs l = Some s' \<and> same_tree s0 s'"
  using assms
proof (induction cs arbitrary: s)
  case Nil
  then show ?case by (simp add: update_each_list_id_Nil)
next
  case (Cons c rest)
  from Cons.prems obtain s2 where one: "update_each_list_id s [c] l = Some s2"
    and t2: "same_tree s0 s2" by auto
  from one have inner:
    "update_each_list_id (set_list_set s l {c}) (children (set_list_set s l {c}) c) l = Some s2"
    by (simp add: update_each_list_id_Cons update_each_list_id_Nil split: bind_splits)
  from Cons.IH[OF _ t2] Cons.prems(1)
  obtain s' where "update_each_list_id s2 rest l = Some s'" "same_tree s0 s'" by auto
  with inner show ?case by (simp add: update_each_list_id_Cons)
qed

lemma update_each_list_id_below:
  assumes top: "parent_id (task_row s0 i) = None"
    and "(i, c) \<in> (child_rel s0)\<^sup>*" and "same_tree s0 s"
  shows "\<exists>s'. update_each_list_id s [c] l = Some s' \<and> same_tree s0 s'"
  using assms(2,3)
proof (induction c arbitrary: s rule: wf_induct_rule[OF wf_below[OF top]])
  case (1 c)
  let ?s1 = "set_list_set s l {c}"
  have t1: "same_tree s0 ?s1" using 1(3) by (rule same_tree_set_list_set)
  have "\<forall>k\<in>set (children ?s1 c). \<forall>s. same_tree s0 s \<longrightarrow>
          (\<exists>s'. update_each_list_id s [k] l = Some s' \<and> same_tree s0 s')"
  proof (intro ballI allI impI)
    fix k s2 assume k: "k \<in> set (children ?s1 c)" and t: "same_tree s0 s2"
    from k same_tree_children[OF t1] have kc: "(c, k) \<in> child_rel s0"
      by (simp add: children_child_rel)
    with 1(2) have "(k, c) \<in> (below s0 i)\<inverse>" "(i, k) \<in> (child_rel s0)\<^sup>*"
      by (auto simp: below_def intro: rtrancl_into_rtrancl)
    with 1(1) t show "\<exists>s'. update_each_list_id s2 [k] l = Some s' \<and> same_tree s0 s'"
      by blast
  qed
  from update_each_list_id_all[OF this t1]
  show ?case by (auto simp: update_each_list_id_Cons update_each_list_id_Nil)
qed

lemma update_descendants_list_id_top_level:
  assumes "parent_id (task_row s i) = None"
  shows "update_descendants_list_id s i l = Some (set_list_set s l ((child_rel s)\<^sup>* `` {i}))"
proof -
  from update_each_list_id_below[OF assms, of i s l]
  obtain s' where s': "update_each_list_id s [i] l = Some s'" by auto
  from update_each_list_id_reach[OF this] s' show ?thesis
    by (simp add: update_descendants_list_id_def)
qed

text \<open>
  Claim C8. A successful \<^verbatim>\<open>move_task_to_list\<close> was asked for a top-level task; it sets
  \<open>list_id\<close> to the new list on the task and on every descendant, changes no other column
  of these rows, and leaves every other task as it is. For a top-level task of the caller
  and a list of the caller it does succeed. A task with a parent is rejected (for a task
  of the caller and a body naming a list, with the message that only top-level tasks can
  be moved); a rejection carries no store.
\<close>

theorem C8_move_task_to_list:
  "(move_task_to_list u s i body = Inr s' \<longrightarrow>
      parent_id (task_row s i) = None \<and>
      (\<exists>l. body = Some \<lparr>new_list_id = Some l\<rparr> \<and> task_ids s' = task_ids s \<and>
         (\<forall>x. (i, x) \<in> (child_rel s)\<^sup>* \<longrightarrow> task_row s' x = (task_row s x)\<lparr>list_id := l\<rparr>) \<and>
         (\<forall>x. (i, x) \<notin> (child_rel s)\<^sup>* \<longrightarrow> task_row s' x = task_row s x))) \<and>
   (query_task s i u = Some i \<and> parent_id (task_row s i) = None \<and>
    query_list s l u = Some l \<longrightarrow>
      (\<exists>s''. move_task_to_list u s i (Some \<lparr>new_list_id = Some l\<rparr>) = Inr s'')) \<and>
   (query_task s i u = Some i \<and> parent_id (task_row s i) \<noteq> None \<longrightarrow>
      move_task_to_list u s i (Some \<lparr>new_list_id = Some l\<rparr>) = Inl OnlyTopLevelCanMove) \<and>
   (parent_id (task_row s i) \<noteq> None \<longrightarrow> (\<exists>e. move_task_to_list u s i body = Inl e))"
proof (intro conjI impI)
  assume ok: "move_task_to_list u s i body = Inr s'"
  then obtain data l where "body = Some data" "new_list_id data = Some l"
    by (auto simp: move_task_to_list_def split: option.splits)
  moreover from this have "data = \<lparr>new_list_id = Some l\<rparr>" by (cases data) simp
  ultimately have l: "body = Some \<lparr>new_list_id = Some l\<rparr>" by simp
  from ok have q: "query_task s i u = Some i" and top: "parent_id (task_row s i) = None"
    by (auto simp: move_task_to_list_def query_task_def split: option.splits if_splits)
  from ok l q top have "s' = set_list_set s l ((child_rel s)\<^sup>* `` {i})"
    by (auto simp: move_task_to_list_def update_descendants_list_id_top_level
        split: option.splits)
  with l show "\<exists>l. body = Some \<lparr>new_list_id = Some l\<rparr> \<and> task_ids s' = task_ids s \<and>
         (\<forall>x. (i, x) \<in> (child_rel s)\<^sup>* \<longrightarrow> task_row s' x = (task_row s x)\<lparr>list_id := l\<rparr>) \<and>
         (\<forall>x. (i, x) \<notin> (child_rel s)\<^sup>* \<longrightarrow> task_row s' x = task_row s x)"
    by (simp add: task_row_set_list_set)
  from top show "parent_id (task_row s i) = None" .
next
  assume "query_task s i u = Some i \<and> parent_id (task_row s i) = None \<and>
    query_list s l u = Some l"
  then show "\<exists>s''. move_task_to_list u s i (Some \<lparr>new_list_id = Some l\<rparr>) = Inr s''"
    by (simp add: move_task_to_list_def update_descendants_list_id_top_level)
next
  assume "query_task s i u = Some i \<and> parent_id (task_row s i) \<noteq> None"
  then show "move_task_to_list u s i (Some \<lparr>new_list_id = Some l\<rparr>) = Inl OnlyTopLevelCanMove"
    by (simp add: move_task_to_list_def)
next
  assume "parent_id (task_row s i) \<noteq> None"
  then show "\<exists>e. move_task_to_list u s i body = Inl e"
    by (auto simp: move_task_to_list_def query_task_def split: option.splits)
qed

text \<open>
  Moving task 1 of the example to list 2 moves its children 2 and 3 too and leaves task 4;
  moving the child 2 is rejected.
\<close>

theorem C8_witness:
  "(\<exists>s'. move_task_to_list 1 moved_tree 1 (Some \<lparr>new_list_id = Some 2\<rparr>) = Inr s' \<and>
         list_id (task_row s' 1) = 2 \<and> list_id (task_row s' 2) = 2 \<and>
         list_id (task_row s' 3) = 2 \<and> task_row s' 4 = task_row moved_tree 4) \<and>
   move_task_to_list 1 moved_tree 2 (Some \<lparr>new_list_id = Some 2\<rparr>) = Inl OnlyTopLevelCanMove"
proof -
  have q: "query_task moved_tree 1 1 = Some 1" "parent_id (task_row moved_tree 1) = None"
    "query_list moved_tree 2 1 = Some 2"
    by (simp_all add: query_task_def query_list_def moved_tree_def example_task_def
        example_list_def)
  have q2: "query_task moved_tree 2 1 = Some 2" "parent_id (task_row moved_tree 2) \<noteq> None"
    by (simp_all add: query_task_def moved_tree_def example_task_def)
  have c: "(1, 2) \<in> child_rel moved_tree" "(1, 3) \<in> child_rel moved_tree"
    by (simp_all add: child_rel_def moved_tree_def example_task_def)
  have r: "(1, 1) \<in> (child_rel moved_tree)\<^sup>*" "(1, 2) \<in> (child_rel moved_tree)\<^sup>*"
    "(1, 3) \<in> (child_rel moved_tree)\<^sup>*"
    using c by (simp_all add: r_into_rtrancl)
  have "parent_id (task_row moved_tree 4) = None"
    by (simp add: moved_tree_def example_task_def)
  then have n: "(1, 4) \<notin> (child_rel moved_tree)\<^sup>*"
    using top_level_no_parent[of 1 4 moved_tree] by auto
  from C8_move_task_to_list [of 1 moved_tree 1 "Some \<lparr>new_list_id = Some 2\<rparr>" _ 2] q
  obtain s' where s': "move_task_to_list 1 moved_tree 1 (Some \<lparr>new_list_id = Some 2\<rparr>) = Inr s'"
    by blast
  from C8_move_task_to_list [of 1 moved_tree 1 "Some \<lparr>new_list_id = Some 2\<rparr>" s' 2] s' r n
  have "list_id (task_row s' 1) = 2 \<and> list_id (task_row s' 2) = 2 \<and>
        list_id (task_row s' 3) = 2 \<and> task_row s' 4 = task_row moved_tree 4"
    by auto
  moreover from C8_move_task_to_list [of 1 moved_tree 2 "Some \<lparr>new_list_id = Some 2\<rparr>" _ 2] q2
  have "move_task_to_list 1 moved_tree 2 (Some \<lparr>new_list_id = Some 2\<rparr>) = Inl OnlyTopLevelCanMove"
    by blast
  ultimately show ?thesis using s' by blast
qed

subsection \<open>The depth limit\<close>

lemma fold_max_ge: "a \<le> fold max xs (a::nat)"
  by (induction xs arbitrary: a) (auto intro: order_trans[OF max.cobounded2])

lemma fold_max_mem: "x \<in> set xs \<Longrightarrow> x \<le> fold max xs (a::nat)"
proof (induction xs arbitrary: a)
  case Nil
  then show ?case by simp
next
  case (Cons y ys)
  then show ?case
    using fold_max_ge[of "max y a" ys] by auto
qed

lemma next_id_fresh: "next_id s \<notin> set (task_ids s)"
  using fold_max_mem[of "next_id s" "task_ids s" 0] by (auto simp: next_id_def)

lemma get_depth_0: "get_depth s x = Some 0 \<longleftrightarrow> parent s x = None"
  by (cases "parent s x") (auto simp: get_depth_top get_depth_up split: bind_splits)

lemma get_depth_Suc:
  "get_depth s x = Some (Suc d) \<longleftrightarrow> (\<exists>q. parent s x = Some q \<and> get_depth s q = Some d)"
  by (cases "parent s x") (auto simp: get_depth_top get_depth_up split: bind_splits)

lemma task_ids_insert_row [simp]: "task_ids (insert_row s n t) = task_ids s @ [n]"
  by (simp add: insert_row_def)

lemma task_row_insert_row [simp]:
  "task_row (insert_row s n t) x = (if x = n then t else task_row s x)"
  by (simp add: insert_row_def)

lemma parent_insert_row:
  assumes "parents_exist s" and "n \<notin> set (task_ids s)" and "x \<in> set (task_ids s)"
  shows "parent (insert_row s n t) x = parent s x"
  using assms by (auto simp: parent_def parents_exist_def split: option.splits)

lemma parent_update_row: "x \<noteq> i \<Longrightarrow> parent (update_row s i f) x = parent s x"
  by (simp add: parent_def split: option.splits)

lemma parent_in_table: "parent s x = Some q \<Longrightarrow> q \<in> set (task_ids s)"
  by (auto simp: parent_def split: option.splits if_splits)

text \<open>Adding a row under an unused key keeps the depth of the tasks of the table.\<close>

lemma get_depth_insert_row:
  assumes "parents_exist s" and "n \<notin> set (task_ids s)"
  shows "x \<in> set (task_ids s) \<Longrightarrow> get_depth s x = Some d \<Longrightarrow>
         get_depth (insert_row s n t) x = Some d"
proof (induction d arbitrary: x)
  case 0
  with assms show ?case by (simp add: get_depth_0 parent_insert_row)
next
  case (Suc d)
  from Suc.prems(2) obtain q where q: "parent s x = Some q" "get_depth s q = Some d"
    by (auto simp: get_depth_Suc)
  from Suc.IH[OF parent_in_table[OF q(1)] q(2)] q(1) assms Suc.prems(1)
  show ?case by (simp add: get_depth_Suc parent_insert_row)
qed

text \<open>
  Changing the row of a task keeps the depth of every task that does not have it on its
  parent chain.
\<close>

lemma get_depth_update_row:
  "get_depth s x = Some d \<Longrightarrow> x \<noteq> i \<Longrightarrow> ancestor_walk s i (parent s x) = Some False \<Longrightarrow>
     get_depth (update_row s i f) x = Some d"
proof (induction d arbitrary: x)
  case 0
  then show ?case by (simp add: get_depth_0 parent_update_row)
next
  case (Suc d)
  from Suc.prems(1) obtain q where q: "parent s x = Some q" "get_depth s q = Some d"
    by (auto simp: get_depth_Suc)
  with Suc.prems(3) have "q \<noteq> i" "ancestor_walk s i (parent s q) = Some False"
    by (auto simp: ancestor_walk_Some split: if_splits)
  from Suc.IH[OF q(2) this] q(1) Suc.prems(2)
  show ?case by (simp add: get_depth_Suc parent_update_row)
qed

lemma create_subtask_Inr:
  assumes "create_subtask u s now p body = Inr (n, s')"
  shows "\<exists>data raw d. body = Some data \<and> body_title data = Some raw \<and> strip raw \<noteq> [] \<and>
           query_task s p u = Some p \<and> get_depth s p = Some d \<and> d < max_depth \<and>
           n = next_id s \<and>
           s' = insert_row s n
                  (new_task (strip raw) data (list_id (task_row s p)) u (Some p) now)"
proof -
  from assms have q: "query_task s p u = Some p"
    by (auto simp: create_subtask_def query_task_def split: option.splits if_splits)
  with assms show ?thesis
    by (auto simp: create_subtask_def add_task_def Let_def split: option.splits if_splits)
qed

lemma move_task_Inr:
  assumes "move_task u s i (Some \<lparr>move_parent_id = Some np\<rparr>) = Inr s'"
  shows "query_task s i u = Some i \<and> query_task s np u = Some np \<and>
         is_ancestor_of s i np = Some False \<and>
         (\<exists>d. get_depth s np = Some d \<and> d < max_depth) \<and>
         list_id (task_row s i) = list_id (task_row s np) \<and>
         s' = update_row s i (\<lambda>t. t\<lparr>parent_id := Some np\<rparr>)"
proof -
  from assms have q: "query_task s i u = Some i" "query_task s np u = Some np"
    by (auto simp: move_task_def query_task_def split: option.splits if_splits)
  with assms show ?thesis
    by (auto simp: move_task_def split: option.splits if_splits bool.splits)
qed

text \<open>A created subtask is one level below its parent, whose depth was below the limit.\<close>

lemma create_subtask_depth:
  assumes pe: "parents_exist s" and ok: "create_subtask u s now p body = Inr (n, s')"
  shows "\<exists>k. get_depth s p = Some k \<and> k < max_depth \<and> get_depth s' n = Some (k + 1)"
proof -
  from create_subtask_Inr[OF ok] obtain data raw k
    where k: "get_depth s p = Some k" "k < max_depth"
    and q: "query_task s p u = Some p" and n: "n = next_id s"
    and s': "s' = insert_row s n
                  (new_task (strip raw) data (list_id (task_row s p)) u (Some p) now)"
    by blast
  from q have pi: "p \<in> set (task_ids s)" by (auto simp: query_task_def split: if_splits)
  from n have fresh: "n \<notin> set (task_ids s)" by (simp add: next_id_fresh)
  have "get_depth s' p = Some k"
    unfolding s' using get_depth_insert_row[OF pe fresh pi k(1)] .
  moreover have "parent s' n = Some p"
    using pi by (simp add: s' parent_def new_task_def)
  ultimately have "get_depth s' n = Some (k + 1)" by (simp add: get_depth_Suc)
  with k show ?thesis by blast
qed

text \<open>
  Claim C2, as the code has it. The depth checks compare the depth of the parent with 5.
  Under a parent of depth 5 or more \<^verbatim>\<open>create_subtask\<close> is rejected and no task is created
  (with the depth message when the title is valid); under a parent of depth 4 or less a
  request with a valid title is accepted. In a table whose parent references name tasks of
  the table, a created subtask has the depth of its parent plus one, at most 5.
  \<^verbatim>\<open>move_task\<close> is rejected under a new parent of depth 5 or more, and a task moved under
  another task has the depth of the new parent plus one, at most 5. So depths 0 to 5 are
  permitted at these two entry points.
\<close>

theorem C2_depth_limit:
  "(query_task s p u = Some p \<and> get_depth s p = Some d \<and> max_depth \<le> d \<longrightarrow>
      (\<exists>e. create_subtask u s now p body = Inl e) \<and>
      (body_title data = Some raw \<and> strip raw \<noteq> [] \<longrightarrow>
         create_subtask u s now p (Some data) = Inl MaxDepthReached)) \<and>
   (query_task s p u = Some p \<and> get_depth s p = Some d \<and> d < max_depth \<and>
    body_title data = Some raw \<and> strip raw \<noteq> [] \<longrightarrow>
      (\<exists>n s'. create_subtask u s now p (Some data) = Inr (n, s'))) \<and>
   (parents_exist s \<and> create_subtask u s now p body = Inr (n, s') \<longrightarrow>
      (\<exists>k. get_depth s p = Some k \<and> k < max_depth \<and> get_depth s' n = Some (k + 1))) \<and>
   (query_task s i u = Some i \<and> query_task s p u = Some p \<and>
    get_depth s p = Some d \<and> max_depth \<le> d \<longrightarrow>
      (\<exists>e. move_task u s i (Some \<lparr>move_parent_id = Some p\<rparr>) = Inl e)) \<and>
   (move_task u s i (Some \<lparr>move_parent_id = Some p\<rparr>) = Inr s'' \<and> p \<noteq> i \<longrightarrow>
      (\<exists>k. get_depth s p = Some k \<and> k < max_depth \<and> get_depth s'' i = Some (k + 1)))"
proof (intro conjI impI)
  assume a: "query_task s p u = Some p \<and> get_depth s p = Some d \<and> max_depth \<le> d"
  then show "\<exists>e. create_subtask u s now p body = Inl e"
    by (auto simp: create_subtask_def split: option.splits)
  show "create_subtask u s now p (Some data) = Inl MaxDepthReached"
    if "body_title data = Some raw \<and> strip raw \<noteq> []"
    using a that by (simp add: create_subtask_def)
next
  assume "query_task s p u = Some p \<and> get_depth s p = Some d \<and> d < max_depth \<and>
    body_title data = Some raw \<and> strip raw \<noteq> []"
  then show "\<exists>n s'. create_subtask u s now p (Some data) = Inr (n, s')"
    by (simp add: create_subtask_def add_task_def Let_def)
next
  assume "parents_exist s \<and> create_subtask u s now p body = Inr (n, s')"
  then show "\<exists>k. get_depth s p = Some k \<and> k < max_depth \<and> get_depth s' n = Some (k + 1)"
    using create_subtask_depth[of s u now p body n s'] by simp
next
  assume "query_task s i u = Some i \<and> query_task s p u = Some p \<and>
    get_depth s p = Some d \<and> max_depth \<le> d"
  then show "\<exists>e. move_task u s i (Some \<lparr>move_parent_id = Some p\<rparr>) = Inl e"
    by (auto simp: move_task_def split: option.splits bool.splits)
next
  assume a: "move_task u s i (Some \<lparr>move_parent_id = Some p\<rparr>) = Inr s'' \<and> p \<noteq> i"
  with move_task_Inr[of u s i p s''] obtain k where k: "get_depth s p = Some k" "k < max_depth"
    and q: "query_task s p u = Some p" and w: "is_ancestor_of s i p = Some False"
    and s'': "s'' = update_row s i (\<lambda>t. t\<lparr>parent_id := Some p\<rparr>)"
    by blast
  from q have pi: "p \<in> set (task_ids s)" by (auto simp: query_task_def split: if_splits)
  from a w have "get_depth s'' p = Some k"
    unfolding s'' by (intro get_depth_update_row k) (simp_all add: is_ancestor_of_def)
  moreover have "parent s'' i = Some p"
    using pi by (simp add: s'' parent_def)
  ultimately have "get_depth s'' i = Some (k + 1)" by (simp add: get_depth_Suc)
  with k show "\<exists>k. get_depth s p = Some k \<and> k < max_depth \<and> get_depth s'' i = Some (k + 1)"
    by blast
qed

lemma strip_sub: "strip ''sub'' = ''sub''"
  by (simp add: strip_def is_space_def)

lemma depth_chain_depths:
  "get_depth depth_chain 4 = Some 3" "get_depth depth_chain 5 = Some 4"
  "get_depth depth_chain 6 = Some 5"
  by (simp_all add: get_depth.simps parent_def depth_chain_def example_task_def)

lemma depth_chain_queries:
  "query_task depth_chain 4 1 = Some 4" "query_task depth_chain 5 1 = Some 5"
  "query_task depth_chain 6 1 = Some 6" "next_id depth_chain = 7"
  "list_id (task_row depth_chain 4) = 1" "list_id (task_row depth_chain 5) = 1"
  "list_id (task_row depth_chain 6) = 1" "query_list depth_chain 2 1 = Some 2"
  by (simp_all add: query_task_def query_list_def next_id_def depth_chain_def example_task_def
      example_list_def)

lemma depth_chain_create_5:
  "create_subtask 1 depth_chain now 5 (Some example_body) =
     Inr (7, insert_row depth_chain 7 (new_task ''sub'' example_body 1 1 (Some 5) now))"
proof -
  have "body_title example_body = Some ''sub''" by (simp add: example_body_def)
  with depth_chain_queries depth_chain_depths strip_sub show ?thesis
    by (simp add: create_subtask_def add_task_def max_depth_def)
qed

lemma depth_chain_move_6:
  "move_task 1 depth_chain 6 (Some \<lparr>move_parent_id = Some 4\<rparr>) =
     Inr (update_row depth_chain 6 (\<lambda>t. t\<lparr>parent_id := Some 4\<rparr>))"
proof -
  have "is_ancestor_of depth_chain 6 4 = Some False"
    by (simp add: is_ancestor_of_def parent_def ancestor_walk_Some ancestor_walk_None
        depth_chain_def example_task_def)
  with depth_chain_queries depth_chain_depths show ?thesis
    by (simp add: move_task_def max_depth_def)
qed

text \<open>
  On the chain: a subtask under task 6 (depth 5) is rejected, one under task 5 (depth 4)
  is created at depth 5, and task 6 moved under task 4 has depth 4.
\<close>

theorem C2_witness:
  "create_subtask 1 depth_chain 9 6 (Some example_body) = Inl MaxDepthReached \<and>
   (\<exists>n s'. create_subtask 1 depth_chain 9 5 (Some example_body) = Inr (n, s') \<and>
      get_depth s' n = Some 5) \<and>
   (\<exists>s''. move_task 1 depth_chain 6 (Some \<lparr>move_parent_id = Some 4\<rparr>) = Inr s'' \<and>
      get_depth s'' 6 = Some 4)"
proof -
  have q: "query_task depth_chain 5 1 = Some 5" "query_task depth_chain 6 1 = Some 6"
    by (simp_all add: query_task_def depth_chain_def example_task_def)
  have t: "body_title example_body = Some ''sub''" "strip ''sub'' \<noteq> []"
    by (simp_all add: example_body_def strip_sub)
  have pe: "parents_exist depth_chain"
    by (auto simp: parents_exist_def depth_chain_def example_task_def)
  note m = depth_chain_move_6
  note inst = C2_depth_limit [where u = 1 and s = depth_chain and now = 9
      and data = example_body and raw = "''sub''"]
  from inst [where p = 6 and d = 5] q t depth_chain_depths
  have a: "create_subtask 1 depth_chain 9 6 (Some example_body) = Inl MaxDepthReached"
    by (simp add: max_depth_def)
  from inst [where p = 5 and d = 4] q t depth_chain_depths
  obtain n s' where c: "create_subtask 1 depth_chain 9 5 (Some example_body) = Inr (n, s')"
    unfolding max_depth_def by fastforce
  from inst [where p = 5 and body = "Some example_body" and n = n and s' = s'] pe c
    depth_chain_depths
  have b: "get_depth s' n = Some 5" by auto
  from inst [where p = 4 and i = 6
      and s'' = "update_row depth_chain 6 (\<lambda>t. t\<lparr>parent_id := Some 4\<rparr>)"] m
    depth_chain_depths
  have "get_depth (update_row depth_chain 6 (\<lambda>t. t\<lparr>parent_id := Some 4\<rparr>)) 6 = Some 4"
    by auto
  with a b c m show ?thesis by blast
qed

text \<open>
  Claim C2 as stated fails: task 5 has depth 4, and the request for a subtask of it is not
  rejected; a new task is created, at depth 5.
\<close>

theorem C2_subtask_of_depth_four_parent_accepted:
  "get_depth depth_chain 5 = Some 4 \<and>
   \<not> isl (create_subtask 1 depth_chain 9 5 (Some example_body)) \<and>
   fst (projr (create_subtask 1 depth_chain 9 5 (Some example_body)))
     \<notin> set (task_ids depth_chain) \<and>
   get_depth (snd (projr (create_subtask 1 depth_chain 9 5 (Some example_body))))
     (fst (projr (create_subtask 1 depth_chain 9 5 (Some example_body)))) = Some 5"
  unfolding depth_chain_create_5 depth_chain_depths
  by (simp add: get_depth.simps parent_def new_task_def depth_chain_def example_task_def)

subsection \<open>Creating a subtask\<close>

text \<open>
  Claim C4, as the code has it for \<^verbatim>\<open>create_subtask\<close>. A created subtask is a new row
  with the parent's \<open>list_id\<close>, the parent as \<open>parent_id\<close> and the caller as owner; the
  parent's depth was below 5, and no other row changes. In a table whose parent references
  name tasks of the table, the depth of the subtask is at most 5. A \<open>list_id\<close> in the
  body has no effect on the response. Under a parent of depth 5 or more the request is
  rejected.
\<close>

theorem C4_subtask_inherits_list:
  "(create_subtask u s now p body = Inr (n, s') \<longrightarrow>
      n \<notin> set (task_ids s) \<and> task_ids s' = task_ids s @ [n] \<and>
      list_id (task_row s' n) = list_id (task_row s p) \<and>
      parent_id (task_row s' n) = Some p \<and> user_id (task_row s' n) = u \<and>
      (\<forall>x. x \<noteq> n \<longrightarrow> task_row s' x = task_row s x) \<and>
      (\<exists>k. get_depth s p = Some k \<and> k < max_depth)) \<and>
   (parents_exist s \<and> create_subtask u s now p body = Inr (n, s') \<longrightarrow>
      (\<exists>k. get_depth s' n = Some k \<and> k \<le> max_depth)) \<and>
   create_subtask u s now p (Some (data\<lparr>body_list_id := l\<rparr>)) =
     create_subtask u s now p (Some data) \<and>
   (query_task s p u = Some p \<and> get_depth s p = Some d \<and> max_depth \<le> d \<longrightarrow>
      (\<exists>e. create_subtask u s now p body = Inl e))"
proof -
  have made: "n \<notin> set (task_ids s) \<and> task_ids s' = task_ids s @ [n] \<and>
      list_id (task_row s' n) = list_id (task_row s p) \<and>
      parent_id (task_row s' n) = Some p \<and> user_id (task_row s' n) = u \<and>
      (\<forall>x. x \<noteq> n \<longrightarrow> task_row s' x = task_row s x) \<and>
      (\<exists>k. get_depth s p = Some k \<and> k < max_depth)"
    if "create_subtask u s now p body = Inr (n, s')"
    using create_subtask_Inr[OF that] by (auto simp: next_id_fresh new_task_def)
  have bounded: "\<exists>k. get_depth s' n = Some k \<and> k \<le> max_depth"
    if "parents_exist s \<and> create_subtask u s now p body = Inr (n, s')"
    using that create_subtask_depth[of s u now p body n s'] by auto
  have ignored: "create_subtask u s now p (Some (data\<lparr>body_list_id := l\<rparr>)) =
     create_subtask u s now p (Some data)"
    by (simp add: create_subtask_def new_task_def split: option.splits)
  have rejected: "\<exists>e. create_subtask u s now p body = Inl e"
    if "query_task s p u = Some p \<and> get_depth s p = Some d \<and> max_depth \<le> d"
    using that by (auto simp: create_subtask_def split: option.splits)
  from made bounded ignored rejected show ?thesis by blast
qed

text \<open>
  The example body names list 2; the subtask created under task 5 is in list 1, the list
  of task 5.
\<close>

theorem C4_witness:
  "body_list_id example_body = Some 2 \<and> list_id (task_row depth_chain 5) = 1 \<and>
   (\<exists>n s'. create_subtask 1 depth_chain 9 5 (Some example_body) = Inr (n, s') \<and>
      list_id (task_row s' n) = 1 \<and> parent_id (task_row s' n) = Some 5 \<and>
      (\<exists>k. get_depth s' n = Some k \<and> k \<le> 5)) \<and>
   (\<exists>e. create_subtask 1 depth_chain 9 6 (Some example_body) = Inl e)"
proof -
  have q: "query_task depth_chain 6 1 = Some 6"
    by (simp add: query_task_def depth_chain_def example_task_def)
  have l: "body_list_id example_body = Some 2" "list_id (task_row depth_chain 5) = 1"
    by (simp_all add: example_body_def depth_chain_def example_task_def)
  have pe: "parents_exist depth_chain"
    by (auto simp: parents_exist_def depth_chain_def example_task_def)
  note c = depth_chain_create_5 [of 9]
  from C4_subtask_inherits_list [where u = 1 and s = depth_chain and now = 9 and p = 5
      and body = "Some example_body" and n = 7
      and s' = "insert_row depth_chain 7 (new_task ''sub'' example_body 1 1 (Some 5) 9)"]
    c l pe
  have a: "list_id (task_row (insert_row depth_chain 7
              (new_task ''sub'' example_body 1 1 (Some 5) 9)) 7) = 1 \<and>
           parent_id (task_row (insert_row depth_chain 7
              (new_task ''sub'' example_body 1 1 (Some 5) 9)) 7) = Some 5 \<and>
           (\<exists>k. get_depth (insert_row depth_chain 7
              (new_task ''sub'' example_body 1 1 (Some 5) 9)) 7 = Some k \<and> k \<le> 5)"
    by (simp add: max_depth_def)
  from C4_subtask_inherits_list [where u = 1 and s = depth_chain and now = 9 and p = 6
      and body = "Some example_body" and d = 5] q depth_chain_depths
  have b: "\<exists>e. create_subtask 1 depth_chain 9 6 (Some example_body) = Inl e"
    by (simp add: max_depth_def)
  from a b c l show ?thesis by blast
qed

text \<open>
  Claim C4 as stated fails: the parent, task 5, has depth 4, so the resulting depth 5 is
  not below the maximum, and the request is accepted.
\<close>

theorem C4_resulting_depth_five_accepted:
  "get_depth depth_chain 5 = Some 4 \<and> max_depth \<le> 4 + 1 \<and>
   create_subtask 1 depth_chain 0 5 (Some example_body) =
     Inr (7, insert_row depth_chain 7 (new_task ''sub'' example_body 1 1 (Some 5) 0))"
  unfolding depth_chain_create_5 depth_chain_depths by (simp add: max_depth_def)

text \<open>
  \<^verbatim>\<open>create_task\<close> stores the \<^verbatim>\<open>parent_id\<close> of its body without any check: here a task
  of list 2 is created under task 6, a task of list 1 at depth 5.
\<close>

lemma create_task_parent_unchecked:
  "get_depth depth_chain 6 = Some 5 \<and> list_id (task_row depth_chain 6) = 1 \<and>
   create_task 1 depth_chain 0 (Some (example_body\<lparr>body_parent_id := Some 6\<rparr>)) =
     Inr (7, insert_row depth_chain 7
               (new_task ''sub'' (example_body\<lparr>body_parent_id := Some 6\<rparr>) 2 1 (Some 6) 0))"
proof -
  have "body_title (example_body\<lparr>body_parent_id := Some 6\<rparr>) = Some ''sub''"
    "body_list_id (example_body\<lparr>body_parent_id := Some 6\<rparr>) = Some 2"
    "body_parent_id (example_body\<lparr>body_parent_id := Some 6\<rparr>) = Some 6"
    by (simp_all add: example_body_def)
  with depth_chain_queries depth_chain_depths strip_sub show ?thesis
    by (simp add: create_task_def add_task_def)
qed

end
